theory Spec2Isabelle
  imports Main "HOL-Library.Sublist"
begin

section \<open>Characters and text\<close>

text \<open>
  Python text is a sequence of code points. The code points modelled are the 256 of ASCII
  and the Latin-1 supplement (which holds the accented letters), written \<open>L1 c\<close>, and
  two more: the capital I with dot above, U+0130, the one code point whose lower case is
  longer than itself, and the combining dot above, U+0307, with which that lower case
  ends. On these the classifications below are CPython's own: \<open>str.isspace\<close> (used by
  \<open>\s\<close> of the \<open>re\<close> module and by \<open>str.strip\<close>), alphanumeric-or-underscore (used by
  \<open>\w\<close> and so by \<open>\b\<close>), \<open>str.lower\<close>, and membership in ASCII.
  Bytes of files, file names, messages of exceptions and display literals (kept as the
  UTF-8 bytes of the source file where they hold an emoji) are byte strings, \<open>string\<close>;
  they are shown or stored, never scanned.
\<close>

datatype uchar = L1 char | I_dotted | Dot_above

type_synonym ustring = "uchar list"

text \<open>A Python string literal of ASCII characters.\<close>

definition ustr :: "string \<Rightarrow> ustring" where
  "ustr s = map L1 s"

definition latin1_space :: "char \<Rightarrow> bool" where
  "latin1_space c = (let n = (of_char c :: nat) in
     (9 \<le> n \<and> n \<le> 13) \<or> (28 \<le> n \<and> n \<le> 32) \<or> n = 133 \<or> n = 160)"

fun is_space :: "uchar \<Rightarrow> bool" where
  "is_space (L1 c) = latin1_space c"
| "is_space I_dotted = False"
| "is_space Dot_above = False"

definition latin1_word :: "char \<Rightarrow> bool" where
  "latin1_word c = (let n = (of_char c :: nat) in
     (48 \<le> n \<and> n \<le> 57) \<or> (65 \<le> n \<and> n \<le> 90) \<or> n = 95 \<or> (97 \<le> n \<and> n \<le> 122) \<or>
     n = 170 \<or> n = 178 \<or> n = 179 \<or> n = 181 \<or> n = 185 \<or> n = 186 \<or>
     (188 \<le> n \<and> n \<le> 190) \<or> (192 \<le> n \<and> n \<le> 214) \<or> (216 \<le> n \<and> n \<le> 246) \<or>
     (248 \<le> n \<and> n \<le> 255))"

text \<open>The letter U+0130 is a word character; the mark U+0307 is not.\<close>

fun is_word :: "uchar \<Rightarrow> bool" where
  "is_word (L1 c) = latin1_word c"
| "is_word I_dotted = True"
| "is_word Dot_above = False"

definition latin1_lower :: "char \<Rightarrow> char" where
  "latin1_lower c = (let n = (of_char c :: nat) in
     if (65 \<le> n \<and> n \<le> 90) \<or> (192 \<le> n \<and> n \<le> 222 \<and> n \<noteq> 215)
     then char_of (n + 32) else c)"

text \<open>\<open>str.lower\<close> code point by code point: U+0130 becomes \<open>i\<close> followed by U+0307.\<close>

fun lower_char :: "uchar \<Rightarrow> ustring" where
  "lower_char (L1 c) = [L1 (latin1_lower c)]"
| "lower_char I_dotted = [L1 (CHR ''i''), Dot_above]"
| "lower_char Dot_above = [Dot_above]"

definition lower :: "ustring \<Rightarrow> ustring" where
  "lower s = concat (map lower_char s)"

fun is_ascii :: "uchar \<Rightarrow> bool" where
  "is_ascii (L1 c) = ((of_char c :: nat) < 128)"
| "is_ascii I_dotted = False"
| "is_ascii Dot_above = False"

section \<open>The fragment of regular expressions the application uses\<close>

text \<open>
  The patterns of the source are built from literal characters, \<open>\s\<close>, the greedy
  repetitions \<open>*\<close> and \<open>+\<close> of one character class, the word boundary \<open>\b\<close>, and the
  one-character negative lookbehind and lookahead. A pattern is the list of its items,
  in the order they are written.
\<close>

datatype atom = Chr uchar | Space

datatype item = One atom | Star atom | Plus atom | WordB | NotBehind atom | NotAhead atom

type_synonym pattern = "item list"

fun atom_ok :: "atom \<Rightarrow> uchar \<Rightarrow> bool" where
  "atom_ok (Chr a) c = (c = a)"
| "atom_ok Space c = is_space c"

text \<open>
  A position in the subject is the character before it (\<open>None\<close> at the start) and the
  text that remains. \<open>\b\<close> holds where exactly one of the two neighbours is a word
  character, a missing neighbour counting as a non-word character.
\<close>

definition word_before :: "uchar option \<Rightarrow> bool" where
  "word_before prev = (case prev of None \<Rightarrow> False | Some c \<Rightarrow> is_word c)"

definition word_after :: "ustring \<Rightarrow> bool" where
  "word_after s = (case s of [] \<Rightarrow> False | c # _ \<Rightarrow> is_word c)"

definition at_boundary :: "uchar option \<Rightarrow> ustring \<Rightarrow> bool" where
  "at_boundary prev s = (word_before prev \<noteq> word_after s)"

text \<open>
  \<open>match_len p prev s\<close> is the backtracking matcher anchored at the current position:
  the number of characters consumed by the first successful alternative, a greedy
  repetition trying one more character before it tries to stop.
\<close>

fun match_len :: "pattern \<Rightarrow> uchar option \<Rightarrow> ustring \<Rightarrow> nat option" where
  "match_len [] prev s = Some 0"
| "match_len (One a # p) prev [] = None"
| "match_len (One a # p) prev (c # cs) =
     (if atom_ok a c then map_option Suc (match_len p (Some c) cs) else None)"
| "match_len (Star a # p) prev [] = match_len p prev []"
| "match_len (Star a # p) prev (c # cs) =
     (if atom_ok a c
      then (case match_len (Star a # p) (Some c) cs of
              Some n \<Rightarrow> Some (Suc n)
            | None \<Rightarrow> match_len p prev (c # cs))
      else match_len p prev (c # cs))"
| "match_len (Plus a # p) prev [] = None"
| "match_len (Plus a # p) prev (c # cs) =
     (if atom_ok a c then map_option Suc (match_len (Star a # p) (Some c) cs) else None)"
| "match_len (WordB # p) prev s =
     (if at_boundary prev s then match_len p prev s else None)"
| "match_len (NotBehind a # p) prev s =
     (if (case prev of None \<Rightarrow> False | Some c \<Rightarrow> atom_ok a c) then None
      else match_len p prev s)"
| "match_len (NotAhead a # p) prev s =
     (if (case s of [] \<Rightarrow> False | c # _ \<Rightarrow> atom_ok a c) then None
      else match_len p prev s)"

text \<open>\<open>re.search\<close>: try every start position from left to right; only whether a match
  exists is used by the application.\<close>

fun search_from :: "pattern \<Rightarrow> uchar option \<Rightarrow> ustring \<Rightarrow> bool" where
  "search_from p prev [] = (match_len p prev [] \<noteq> None)"
| "search_from p prev (c # cs) =
     (match_len p prev (c # cs) \<noteq> None \<or> search_from p (Some c) cs)"

definition re_search :: "pattern \<Rightarrow> ustring \<Rightarrow> bool" where
  "re_search p s = search_from p None s"

text \<open>
  \<open>re.sub\<close> with a constant replacement: scanning from the left, a non-empty match is
  replaced and scanning resumes behind it; elsewhere the character is copied. Lookbehind
  sees the characters of the subject, not of the result. Both patterns given to it by the
  application match at least one character, so the treatment of empty matches is left out.
\<close>

function re_sub :: "pattern \<Rightarrow> ustring \<Rightarrow> uchar option \<Rightarrow> ustring \<Rightarrow> ustring" where
  "re_sub p repl prev [] = []"
| "re_sub p repl prev (c # cs) =
     (case match_len p prev (c # cs) of
        Some (Suc n) \<Rightarrow> repl @ re_sub p repl (Some ((c # cs) ! n)) (drop n cs)
      | _ \<Rightarrow> c # re_sub p repl (Some c) cs)"
  by pat_completeness auto
termination
  by (relation "measure (\<lambda>(p, repl, prev, s). length s)") auto

definition lits :: "ustring \<Rightarrow> pattern" where
  "lits w = map (\<lambda>c. One (Chr c)) w"

section \<open>Hazard scanning\<close>

text \<open>Every call of the UI framework that shows something, and the call of the external
  generator, is an event; a run of the application yields the list of its events in order.
  The markdown of the streaming placeholder is made of display literals and of text, in
  the order of its pieces.\<close>

datatype piece = Lit string | Txt ustring

datatype event =
    Title string | Header string | Error string | Warning string | Success string
  | TextArea ustring | Spinner string | Generate ustring | Stream "piece list" | Markdown string
  | Subheader string | PdfPreview string | Download string | Caption string

definition siren :: string where
  "siren = [CHR 0xF0, CHR 0x9F, CHR 0x9A, CHR 0xA8]"

text \<open>\<open>RED_FLAGS\<close>: the dictionary literal, in insertion order, which is the order in
  which \<open>.items()\<close> yields it.\<close>

definition RED_FLAGS :: "(pattern \<times> string) list" where
  "RED_FLAGS =
    [([WordB] @ lits (ustr ''chest'') @ [Star Space] @ lits (ustr ''pain'') @ [WordB],
        siren @ '' CALL 911: May indicate heart attack!''),
     ([WordB] @ lits (ustr ''difficulty'') @ [Star Space] @ lits (ustr ''breathing'') @ [WordB],
        siren @ '' Seek emergency care immediately!''),
     ([WordB] @ lits (ustr ''sudden'') @ [Star Space] @ lits (ustr ''numbness'') @ [WordB],
        siren @ '' Stroke warning - call emergency services!''),
     ([WordB] @ lits (ustr ''severe'') @ [Star Space] @ lits (ustr ''bleeding'') @ [WordB],
        siren @ '' Apply pressure and call for emergency help!''),
     ([WordB] @ lits (ustr ''suicidal'') @ [Star Space] @ lits (ustr ''thoughts'') @ [WordB],
        siren @ '' Contact emergency services or a crisis hotline immediately'')]"

definition emergency_notice :: string where
  "emergency_notice = ''Do not use this app for emergencies. Seek immediate medical attention.''"

text \<open>The loop of \<open>check_red_flags\<close> over a table of rules: the first pattern found in the
  text shows its message and the notice, and returns.\<close>

fun scan_flags :: "(pattern \<times> string) list \<Rightarrow> ustring \<Rightarrow> bool \<times> event list" where
  "scan_flags [] text = (False, [])"
| "scan_flags ((flag_pattern, message) # rest) text =
     (if re_search flag_pattern text
      then (True, [Error message, Error emergency_notice])
      else scan_flags rest text)"

definition check_red_flags_in :: "(pattern \<times> string) list \<Rightarrow> ustring \<Rightarrow> bool \<times> event list" where
  "check_red_flags_in flags text =
     (if text = [] then (False, []) else scan_flags flags (lower text))"

definition check_red_flags :: "ustring \<Rightarrow> bool \<times> event list" where
  "check_red_flags text = check_red_flags_in RED_FLAGS text"

section \<open>Text extraction\<close>

type_synonym bytes = string
type_synonym path = string
type_synonym fs = "path \<rightharpoonup> bytes"

datatype exn = Exn string

fun str :: "exn \<Rightarrow> string" where
  "str (Exn m) = m"

record uploaded_file =
  ftype :: string
  getvalue :: bytes

text \<open>The calls made on the \<open>FPDF\<close> object, in order, are the document handed to the
  PDF writer.\<close>

datatype pdf_op =
    AddPage
  | SetFont string string nat
  | Cell nat nat ustring nat nat string
  | Ln nat
  | MultiCell nat nat ustring

text \<open>
  What lies outside the repository: the operating system (the name the temporary file
  gets, and which of creating, writing, closing and unlinking it raises), the document
  libraries (a PDF reader yields its pages, each of which may raise when its text is
  extracted), the UTF-8 decoder, the generator (a stream of chunks, each of which may
  raise when it is read) and the PDF writer.
\<close>

record world =
  tmp_name :: path
  create_error :: "exn option"
  write_error :: "exn option"
  close_error :: "exn option"
  unlink_error :: "exn option"
  pdf_reader :: "bytes \<Rightarrow> exn + (exn + ustring) list"
  docx_paragraphs :: "bytes \<Rightarrow> exn + ustring list"
  utf8_decode :: "bytes \<Rightarrow> exn + ustring"
  generate_content :: "ustring \<Rightarrow> exn + (exn + ustring) list"
  fpdf_output :: "pdf_op list \<Rightarrow> exn + bytes"

definition newline :: uchar where
  "newline = L1 (CHR 0x0A)"

text \<open>\<open>"\n".join(...)\<close> and \<open>" ".join(...)\<close>.\<close>

fun join :: "ustring \<Rightarrow> ustring list \<Rightarrow> ustring" where
  "join sep [] = []"
| "join sep [w] = w"
| "join sep (w # v # ws) = w @ sep @ join sep (v # ws)"

text \<open>A list comprehension over calls that may raise: the first exception ends it.\<close>

fun collect :: "(exn + 'a) list \<Rightarrow> exn + 'a list" where
  "collect [] = Inr []"
| "collect (Inl e # xs) = Inl e"
| "collect (Inr x # xs) = (case collect xs of Inl e \<Rightarrow> Inl e | Inr ys \<Rightarrow> Inr (x # ys))"

definition strip :: "ustring \<Rightarrow> ustring" where
  "strip s = rev (dropWhile is_space (rev (dropWhile is_space s)))"

definition single_newline :: pattern where
  "single_newline = [NotBehind (Chr newline), One (Chr newline), NotAhead (Chr newline)]"

definition space_run :: pattern where
  "space_run = [Plus Space]"

definition clean_text :: "ustring \<Rightarrow> ustring" where
  "clean_text raw_text =
     (let cleaned_text = re_sub single_newline (ustr '' '') None raw_text;
          cleaned_text = re_sub space_run (ustr '' '') None cleaned_text
      in strip cleaned_text)"

definition open_read :: "fs \<Rightarrow> path \<Rightarrow> exn + bytes" where
  "open_read files p =
     (case files p of None \<Rightarrow> Inl (Exn ''No such file or directory'') | Some b \<Rightarrow> Inr b)"

definition read_raw :: "world \<Rightarrow> uploaded_file \<Rightarrow> fs \<Rightarrow> path \<Rightarrow> exn + ustring" where
  "read_raw w f files tmp_path =
     (if ftype f = ''application/pdf'' then
        (case open_read files tmp_path of Inl e \<Rightarrow> Inl e
         | Inr b \<Rightarrow> (case pdf_reader w b of Inl e \<Rightarrow> Inl e
            | Inr pages \<Rightarrow> (case collect pages of Inl e \<Rightarrow> Inl e
               | Inr texts \<Rightarrow> Inr (join [newline] texts))))
      else if ftype f =
          ''application/vnd.openxmlformats-officedocument.wordprocessingml.document'' then
        (case open_read files tmp_path of Inl e \<Rightarrow> Inl e
         | Inr b \<Rightarrow> (case docx_paragraphs w b of Inl e \<Rightarrow> Inl e
            | Inr paras \<Rightarrow> Inr (join [newline] paras)))
      else utf8_decode w (getvalue f))"

text \<open>
  The \<open>try\<close> block of \<open>extract_text_from_file\<close>: its value or the exception it raises,
  the files afterwards, and \<open>tmp_path\<close> if the assignment to it was reached. A temporary
  file that was created stays (\<open>delete=False\<close>) when leaving the \<open>with\<close> block, also by an
  exception; what a failed write leaves in it is not specified and taken as empty.
  Bytes that fit the buffer of the file are written when it is closed, so that a failure
  to write them is \<open>close_error\<close>, with \<open>tmp_path\<close> bound.
\<close>

definition extract_try :: "world \<Rightarrow> uploaded_file \<Rightarrow> fs \<Rightarrow> (exn + ustring) \<times> fs \<times> path option" where
  "extract_try w f files =
     (case create_error w of Some e \<Rightarrow> (Inl e, files, None)
      | None \<Rightarrow>
         (case write_error w of Some e \<Rightarrow> (Inl e, files(tmp_name w \<mapsto> []), None)
          | None \<Rightarrow>
             (let files' = files(tmp_name w \<mapsto> getvalue f); tmp_path = tmp_name w in
              case close_error w of Some e \<Rightarrow> (Inl e, files', Some tmp_path)
              | None \<Rightarrow>
                 (case read_raw w f files' tmp_path of
                    Inl e \<Rightarrow> (Inl e, files', Some tmp_path)
                  | Inr raw_text \<Rightarrow> (Inr (clean_text raw_text), files', Some tmp_path)))))"

text \<open>The \<open>finally\<close> block: unlink the file if \<open>tmp_path\<close> is bound and the file exists;
  an exception of the unlinking becomes a warning.\<close>

definition extract_finally :: "world \<Rightarrow> path option \<Rightarrow> fs \<Rightarrow> fs \<times> event list" where
  "extract_finally w tmp_path files =
     (case tmp_path of None \<Rightarrow> (files, [])
      | Some p \<Rightarrow>
         if files p \<noteq> None then
           (case unlink_error w of
              Some e \<Rightarrow> (files, [Warning (''Couldn't delete temp file: '' @ str e)])
            | None \<Rightarrow> (files(p := None), []))
         else (files, []))"

definition extract_text_from_file :: "world \<Rightarrow> uploaded_file \<Rightarrow> fs \<Rightarrow> ustring \<times> fs \<times> event list" where
  "extract_text_from_file w f files =
     (case extract_try w f files of (r, files1, tmp_path) \<Rightarrow>
        (case extract_finally w tmp_path files1 of (files2, warned) \<Rightarrow>
           (case r of
              Inr text \<Rightarrow> (text, files2, warned)
            | Inl e \<Rightarrow> ([], files2, Error (''Error reading file: '' @ str e) # warned))))"

section \<open>The printable summary\<close>

text \<open>\<open>s.encode('ascii', 'replace').decode('ascii')\<close>: a question mark for every code
  point that ASCII does not have.\<close>

definition ascii_replace :: "ustring \<Rightarrow> ustring" where
  "ascii_replace s = map (\<lambda>c. if is_ascii c then c else L1 (CHR ''?'')) s"

definition medical_pdf_ops :: "ustring \<Rightarrow> ustring \<Rightarrow> pdf_op list" where
  "medical_pdf_ops symptoms guide =
     (let safe_text = ascii_replace guide in
      [AddPage,
       SetFont ''Helvetica'' ''B'' 16,
       Cell 0 10 (ustr ''Your Medical Visit Summary'') 0 1 ''C'',
       Ln 5,
       SetFont ''Helvetica'' '''' 11,
       MultiCell 0 7 (ascii_replace (ustr ''Symptoms:'' @ [newline] @ symptoms)),
       Ln 5,
       MultiCell 0 7 (ustr ''Guidance:'' @ [newline] @ safe_text),
       Ln 10,
       SetFont ''Helvetica'' ''I'' 8,
       MultiCell 0 5
         (ustr ''Disclaimer: This document is not medical advice. Always consult a healthcare professional.'')])"

text \<open>Whatever the PDF library raises is caught: the function shows the error and
  returns \<open>None\<close>.\<close>

definition create_medical_pdf ::
  "world \<Rightarrow> ustring \<Rightarrow> ustring \<Rightarrow> path \<Rightarrow> fs \<Rightarrow> path option \<times> fs \<times> event list" where
  "create_medical_pdf w symptoms guide filename files =
     (case fpdf_output w (medical_pdf_ops symptoms guide) of
        Inl e \<Rightarrow> (None, files, [Error (''PDF generation failed: '' @ str e)])
      | Inr b \<Rightarrow> (Some filename, files(filename \<mapsto> b), []))"

definition show_pdf_preview :: "fs \<Rightarrow> path option \<Rightarrow> event list" where
  "show_pdf_preview files pdf_path =
     (case pdf_path of None \<Rightarrow> []
      | Some p \<Rightarrow> if p \<noteq> [] \<and> files p \<noteq> None then [PdfPreview (the (files p))] else [])"

section \<open>The request\<close>

definition grade_levels :: "int \<rightharpoonup> ustring" where
  "grade_levels = map_of
     [(1, ustr ''5th grade''), (2, ustr ''7th grade''), (3, ustr ''9th grade''),
      (4, ustr ''11th grade''), (5, ustr ''College level'')]"

definition indent :: ustring where
  "indent = ustr ''                    ''"

text \<open>The f-string of \<open>main\<close>, line by line.\<close>

definition build_prompt :: "ustring \<Rightarrow> ustring \<Rightarrow> ustring \<Rightarrow> ustring" where
  "build_prompt doctor_specialty symptoms selected_level =
     [newline] @
     indent @ ustr ''You are a health assistant for patients seeing a '' @ doctor_specialty @ ustr ''.'' @ [newline] @
     indent @ ustr ''Given these symptoms: '' @ symptoms @ [newline] @
     indent @ [newline] @
     indent @ ustr ''Create a guide at '' @ selected_level @ ustr '' reading level:'' @ [newline] @
     indent @ ustr ''1. Possible causes (plain language, no diagnosis)'' @ [newline] @
     indent @ ustr ''2. 5 priority questions for the doctor'' @ [newline] @
     indent @ ustr ''3. Appointment preparation tips'' @ [newline] @
     indent @ [newline] @
     indent @ ustr ''Rules:'' @ [newline] @
     indent @ ustr ''- Use bullet points'' @ [newline] @
     indent @ ustr ''- For level 1-2: Max 1-2 syllable words'' @ [newline] @
     indent @ ustr ''- For level 3-4: May include medical terms with explanations'' @ [newline] @
     indent @ ustr ''- Never suggest treatments'' @ [newline] @
     indent @ ustr ''- Use only standard ASCII characters'' @ [newline] @
     indent"

record inputs =
  reading_level :: int
  doctor_specialty :: ustring
  uploaded :: "uploaded_file option"
  symptoms_in :: ustring
  button :: bool

text \<open>How a run of the script ends: at its last line, by \<open>st.stop()\<close>, or by the
  \<open>KeyError\<close> of \<open>grade_levels[reading_level]\<close>.\<close>

datatype outcome = Finished | Stopped | KeyError

definition stethoscope :: string where
  "stethoscope = [CHR 0xF0, CHR 0x9F, CHR 0xA9, CHR 0xBA]"

definition warning_sign :: string where
  "warning_sign = [CHR 0xE2, CHR 0x9A, CHR 0xA0, CHR 0xEF, CHR 0xB8, CHR 0x8F]"

definition page_icon :: string where
  "page_icon = [CHR 0xF0, CHR 0x9F, CHR 0x93, CHR 0x84]"

definition clipboard :: string where
  "clipboard = [CHR 0xF0, CHR 0x9F, CHR 0x93, CHR 0x8B]"

definition heart :: string where
  "heart = [CHR 0xE2, CHR 0x9D, CHR 0xA4, CHR 0xEF, CHR 0xB8, CHR 0x8F]"

text \<open>
  The part of \<open>main\<close> that settles \<open>symptoms\<close>: \<open>None\<close> when \<open>st.stop()\<close> ended the run,
  the text otherwise. With an upload the typed text is kept when nothing was extracted,
  and the \<open>elif\<close> branch, which scans typed text, is not entered.
\<close>

definition read_input :: "world \<Rightarrow> inputs \<Rightarrow> fs \<Rightarrow> ustring option \<times> fs \<times> event list" where
  "read_input w inp files =
     (case uploaded inp of
        Some uploaded_file \<Rightarrow>
          (case extract_text_from_file w uploaded_file files of (extracted_text, files', shown) \<Rightarrow>
             if extracted_text \<noteq> [] then
               (let preview = [Success (page_icon @ '' Extracted Text Preview:''),
                               TextArea extracted_text];
                    symptoms = extracted_text;
                    (flagged, alerts) = check_red_flags symptoms
                in if flagged then (None, files', shown @ preview @ alerts)
                   else (Some symptoms, files', shown @ preview @ alerts))
             else (Some (symptoms_in inp), files', shown))
      | None \<Rightarrow>
          if symptoms_in inp \<noteq> [] then
            (let (flagged, alerts) = check_red_flags (symptoms_in inp)
             in if flagged then (None, files, alerts)
                else (Some (symptoms_in inp), files, alerts))
          else (Some (symptoms_in inp), files, []))"

definition stream_header :: "ustring \<Rightarrow> piece list" where
  "stream_header selected_level =
     [Lit (''## '' @ clipboard @ '' Your Guide (''), Txt selected_level,
      Lit ('' level)'' @ [CHR 0x0A, CHR 0x0A])]"

text \<open>The loop over the streamed response: every chunk is appended and the text so far
  is shown again; a chunk that raises ends the loop with its exception.\<close>

fun consume :: "ustring \<Rightarrow> (exn + ustring) list \<Rightarrow> ustring list \<Rightarrow> (exn + ustring list) \<times> event list" where
  "consume selected_level [] full_response = (Inr full_response, [])"
| "consume selected_level (Inl e # rest) full_response = (Inl e, [])"
| "consume selected_level (Inr chunk_text # rest) full_response =
     (case consume selected_level rest (full_response @ [chunk_text]) of (r, shown) \<Rightarrow>
        (r, Stream (stream_header selected_level @ [Txt (concat (full_response @ [chunk_text]))]) # shown))"

definition generation_failed :: "exn \<Rightarrow> event" where
  "generation_failed e = Error (''Generation failed: '' @ str e)"

text \<open>The \<open>try\<close> block behind the button, with its \<open>except\<close> clause.\<close>

definition generate_guide :: "world \<Rightarrow> ustring \<Rightarrow> ustring \<Rightarrow> ustring \<Rightarrow> fs \<Rightarrow> fs \<times> event list" where
  "generate_guide w specialty symptoms selected_level files =
     (let prompt = build_prompt specialty symptoms selected_level in
      case generate_content w prompt of
        Inl e \<Rightarrow> (files, [Generate prompt, generation_failed e])
      | Inr response \<Rightarrow>
          (case consume selected_level response [] of
             (Inl e, shown) \<Rightarrow> (files, Generate prompt # shown @ [generation_failed e])
           | (Inr full_response, shown) \<Rightarrow>
               (let guide = concat full_response in
                case create_medical_pdf w symptoms guide ''medical_summary.pdf'' files of
                  (None, files', failed) \<Rightarrow> (files', Generate prompt # shown @ failed)
                | (Some pdf_path, files', failed) \<Rightarrow>
                    (let preview = [Markdown ''---'', Subheader (page_icon @ '' PDF Preview'')]
                                   @ show_pdf_preview files' (Some pdf_path) in
                     case open_read files' pdf_path of
                       Inl e \<Rightarrow> (files', Generate prompt # shown @ failed @ preview
                                            @ [generation_failed e])
                     | Inr b \<Rightarrow> (files', Generate prompt # shown @ failed @ preview
                                            @ [Download b])))))"

definition main :: "world \<Rightarrow> inputs \<Rightarrow> fs \<Rightarrow> outcome \<times> fs \<times> event list" where
  "main w inp files =
     (let banner = [Title (stethoscope @ '' Medical Helper''),
                    Warning (warning_sign @ '' NOT for emergencies. Always consult a real doctor.''),
                    Header ''Settings''] in
      case grade_levels (reading_level inp) of
        None \<Rightarrow> (KeyError, files, banner)
      | Some selected_level \<Rightarrow>
          (case read_input w inp files of
             (None, files1, shown) \<Rightarrow> (Stopped, files1, banner @ shown)
           | (Some symptoms, files1, shown) \<Rightarrow>
               (let footer = [Markdown ''---'',
                              Caption (''Built with '' @ heart @ '' for patient education'')] in
                if button inp then
                  (if symptoms = [] then
                     (Finished, files1, banner @ shown
                        @ [Warning ''Please describe symptoms or upload a file''] @ footer)
                   else
                     (case generate_guide w (doctor_specialty inp) symptoms selected_level files1 of
                        (files2, generated) \<Rightarrow>
                          (Finished, files2, banner @ shown
                             @ [Spinner ''Generating your personalized guide...'']
                             @ generated @ footer)))
                else (Finished, files1, banner @ shown @ footer))))"

section \<open>Notions of the specification\<close>

text \<open>The hazard phrases, as the two words of each rule, in the order of the rules.\<close>

definition hazard_phrases :: "(ustring \<times> ustring) list" where
  "hazard_phrases =
     [(ustr ''chest'', ustr ''pain''), (ustr ''difficulty'', ustr ''breathing''),
      (ustr ''sudden'', ustr ''numbness''), (ustr ''severe'', ustr ''bleeding''),
      (ustr ''suicidal'', ustr ''thoughts'')]"

text \<open>A phrase stands inside a larger word when the text before it ends with a word
  character or the text behind it starts with one.\<close>

definition ends_with_word :: "ustring \<Rightarrow> bool" where
  "ends_with_word pre = (case rev pre of [] \<Rightarrow> False | c # _ \<Rightarrow> is_word c)"

definition starts_with_word :: "ustring \<Rightarrow> bool" where
  "starts_with_word post = (case post of [] \<Rightarrow> False | c # _ \<Rightarrow> is_word c)"

text \<open>\<open>occurs u v s\<close>: somewhere in \<open>s\<close> stands \<open>u\<close>, then a run of whitespace that may be
  empty, then \<open>v\<close>, whatever surrounds them.\<close>

definition phrase_at :: "ustring \<Rightarrow> ustring \<Rightarrow> ustring \<Rightarrow> bool" where
  "phrase_at u v t = (prefix u t \<and> prefix v (dropWhile is_space (drop (length u) t)))"

definition occurs :: "ustring \<Rightarrow> ustring \<Rightarrow> ustring \<Rightarrow> bool" where
  "occurs u v s = list_ex (phrase_at u v) (suffixes s)"

text \<open>The words of a text: its maximal runs of characters that are not whitespace.\<close>

function ws_words :: "ustring \<Rightarrow> ustring list" where
  "ws_words s =
     (case dropWhile is_space s of
        [] \<Rightarrow> []
      | c # t \<Rightarrow> (c # takeWhile (\<lambda>x. \<not> is_space x) t)
                  # ws_words (dropWhile (\<lambda>x. \<not> is_space x) t))"
  by pat_completeness auto
termination
proof (relation "measure length")
  show "wf (measure length)" by simp
next
  fix s :: ustring and c t
  assume a: "dropWhile is_space s = c # t"
  have "length (dropWhile (\<lambda>x. \<not> is_space x) t) \<le> length t"
    by (rule length_dropWhile_le)
  also have "length t < length (dropWhile is_space s)" using a by simp
  also have "\<dots> \<le> length s" by (rule length_dropWhile_le)
  finally show "(dropWhile (\<lambda>x. \<not> is_space x) t, s) \<in> measure length" by simp
qed

declare ws_words.simps [simp del]

text \<open>The texts a document shows.\<close>

fun pdf_texts :: "pdf_op list \<Rightarrow> ustring list" where
  "pdf_texts [] = []"
| "pdf_texts (Cell w h t border ln align # ops) = t # pdf_texts ops"
| "pdf_texts (MultiCell w h t # ops) = t # pdf_texts ops"
| "pdf_texts (op # ops) = pdf_texts ops"

text \<open>The character before a position that lies behind \<open>pre\<close>.\<close>

fun last_opt :: "uchar option \<Rightarrow> ustring \<Rightarrow> uchar option" where
  "last_opt prev [] = prev"
| "last_opt prev (c # cs) = last_opt (Some c) cs"

section \<open>Sample surroundings\<close>

text \<open>A world in which nothing fails: the decoder reads ASCII files, the generator answers
  in two chunks.\<close>

definition calm_world :: world where
  "calm_world =
     \<lparr>tmp_name = ''/tmp/tmpq1w2e3'', create_error = None, write_error = None,
      close_error = None, unlink_error = None,
      pdf_reader = (\<lambda>b. Inr [Inr (ustr b)]), docx_paragraphs = (\<lambda>b. Inr [ustr b]),
      utf8_decode = (\<lambda>b. if list_all (\<lambda>c. (of_char c :: nat) < 128) b then Inr (ustr b)
                         else Inl (Exn ''invalid start byte'')),
      generate_content = (\<lambda>p. Inr [Inr (ustr ''Rest. ''), Inr (ustr ''Ask your doctor.'')]),
      fpdf_output = (\<lambda>ops. Inr ''%PDF-1.3'')\<rparr>"

text \<open>The same world with a full disk: writing the upload to the temporary file raises.\<close>

definition full_disk_world :: world where
  "full_disk_world = calm_world\<lparr>write_error := Some (Exn ''No space left on device'')\<rparr>"

text \<open>The same world with a PDF whose second page cannot be read.\<close>

definition torn_pdf_world :: world where
  "torn_pdf_world =
     calm_world\<lparr>pdf_reader := (\<lambda>b. Inr [Inr (ustr ''page one''), Inl (Exn ''corrupt page'')])\<rparr>"

definition empty_upload :: uploaded_file where
  "empty_upload = \<lparr>ftype = ''text/plain'', getvalue = []\<rparr>"

definition pdf_upload :: uploaded_file where
  "pdf_upload = \<lparr>ftype = ''application/pdf'', getvalue = ''%PDF-1.4 ...''\<rparr>"

text \<open>An upload too large for the buffer of the temporary file, so that a full disk shows
  in the write itself.\<close>

definition large_upload :: uploaded_file where
  "large_upload = \<lparr>ftype = ''text/plain'', getvalue = replicate 8192 (CHR ''x'')\<rparr>"

text \<open>An empty text file is uploaded while the text area holds a hazard phrase, and the
  button is pressed.\<close>

definition bypass_inputs :: inputs where
  "bypass_inputs =
     \<lparr>reading_level = 3, doctor_specialty = ustr ''General Practitioner'',
      uploaded = Some empty_upload, symptoms_in = ustr ''I have chest pain'', button = True\<rparr>"

text \<open>The shape of every rule's pattern.\<close>

definition phrase_pattern :: "ustring \<Rightarrow> ustring \<Rightarrow> pattern" where
  "phrase_pattern u v = [WordB] @ lits u @ [Star Space] @ lits v @ [WordB]"

text \<open>Notions used to describe the normalisation: two characters of the same class are
  equal or both whitespace; the single space that the collapsed text starts with when the
  text starts with whitespace, and ends with when a word is followed by whitespace.\<close>

definition same_class :: "uchar \<Rightarrow> uchar \<Rightarrow> bool" where
  "same_class x y = (x = y \<or> (is_space x \<and> is_space y))"

definition lead :: "ustring \<Rightarrow> ustring" where
  "lead s = (case s of [] \<Rightarrow> [] | c # _ \<Rightarrow> if is_space c then ustr '' '' else [])"

definition trail :: "ustring \<Rightarrow> ustring" where
  "trail s = (if ws_words s \<noteq> [] \<and> is_space (last s) then ustr '' '' else [])"

definition is_wordlike :: "ustring \<Rightarrow> bool" where
  "is_wordlike w = (w \<noteq> [] \<and> list_all (\<lambda>x. \<not> is_space x) w)"

text \<open>The lower case of a code point other than U+0130 is one code point; of U+0130 this is
  the first of the two.\<close>

fun lower_one :: "uchar \<Rightarrow> uchar" where
  "lower_one (L1 c) = L1 (latin1_lower c)"
| "lower_one I_dotted = L1 (CHR ''i'')"
| "lower_one Dot_above = Dot_above"

section \<open>Properties of the matcher\<close>

lemma last_opt_append [simp]: "last_opt prev (xs @ ys) = last_opt (last_opt prev xs) ys"
  by (induction xs arbitrary: prev) simp_all

lemma last_opt_nonempty: "xs \<noteq> [] \<Longrightarrow> last_opt prev xs = Some (last xs)"
  by (induction xs arbitrary: prev) auto

lemma match_lits_append:
  "match_len (lits u @ p) prev (u @ t) = map_option (\<lambda>n. length u + n) (match_len p (last_opt prev u) t)"
proof (induction u arbitrary: prev)
  case Nil
  show ?case by (simp add: lits_def option.map_ident)
next
  case (Cons c u)
  have "match_len (lits (c # u) @ p) prev ((c # u) @ t)
        = map_option Suc (match_len (lits u @ p) (Some c) (u @ t))"
    by (simp add: lits_def)
  then show ?case using Cons.IH [of "Some c"]
    by (simp add: option.map_comp comp_def)
qed

lemma match_lits_prefix:
  "match_len (lits u @ p) prev s \<noteq> None \<Longrightarrow> prefix u s"
proof (induction u arbitrary: prev s)
  case Nil
  show ?case by simp
next
  case (Cons c u)
  then show ?case
    by (cases s) (auto simp: lits_def split: if_splits)
qed

lemma match_lits_iff:
  "match_len (lits u @ p) prev s \<noteq> None \<longleftrightarrow>
     (\<exists>t. s = u @ t \<and> match_len p (last_opt prev u) t \<noteq> None)"
proof
  assume a: "match_len (lits u @ p) prev s \<noteq> None"
  from match_lits_prefix [OF a] obtain t where t: "s = u @ t"
    unfolding prefix_def by blast
  with a show "\<exists>t. s = u @ t \<and> match_len p (last_opt prev u) t \<noteq> None"
    by (auto simp: match_lits_append)
next
  assume "\<exists>t. s = u @ t \<and> match_len p (last_opt prev u) t \<noteq> None"
  then show "match_len (lits u @ p) prev s \<noteq> None"
    by (auto simp: match_lits_append)
qed

lemma match_star_space_iff:
  assumes v: "v \<noteq> []" "\<not> is_space (hd v)"
  shows "match_len (Star Space # lits v @ q) prev s \<noteq> None \<longleftrightarrow>
     (\<exists>ws t. s = ws @ v @ t \<and> (\<forall>c\<in>set ws. is_space c) \<and>
         match_len q (Some (last v)) t \<noteq> None)"
proof (induction s arbitrary: prev)
  case Nil
  have "\<not> prefix v []" using v by simp
  then have "match_len (lits v @ q) prev [] = None"
    using match_lits_prefix [of v q prev "[]"] by blast
  then have "match_len (Star Space # lits v @ q) prev [] = None" by simp
  moreover have "\<not> (\<exists>ws t. [] = ws @ v @ t \<and> (\<forall>c\<in>set ws. is_space c) \<and>
         match_len q (Some (last v)) t \<noteq> None)" using v by simp
  ultimately show ?case by blast
next
  case (Cons c cs)
  show ?case
  proof (cases "is_space c")
    case True
    have nolit: "match_len (lits v @ q) prev (c # cs) = None"
    proof (rule ccontr)
      assume "match_len (lits v @ q) prev (c # cs) \<noteq> None"
      then have "prefix v (c # cs)" by (rule match_lits_prefix)
      with v True show False by (cases v) auto
    qed
    have "match_len (Star Space # lits v @ q) prev (c # cs) \<noteq> None \<longleftrightarrow>
          match_len (Star Space # lits v @ q) (Some c) cs \<noteq> None"
      using True nolit by (auto split: option.splits)
    also have "\<dots> \<longleftrightarrow> (\<exists>ws t. cs = ws @ v @ t \<and> (\<forall>c\<in>set ws. is_space c) \<and>
         match_len q (Some (last v)) t \<noteq> None)" by (rule Cons.IH)
    also have "\<dots> \<longleftrightarrow> (\<exists>ws t. c # cs = ws @ v @ t \<and> (\<forall>c\<in>set ws. is_space c) \<and>
         match_len q (Some (last v)) t \<noteq> None)" (is "?L \<longleftrightarrow> ?R")
    proof
      assume ?L
      then obtain ws t where "cs = ws @ v @ t" "\<forall>c\<in>set ws. is_space c"
        "match_len q (Some (last v)) t \<noteq> None" by blast
      with True have "c # cs = (c # ws) @ v @ t \<and> (\<forall>c\<in>set (c # ws). is_space c) \<and>
         match_len q (Some (last v)) t \<noteq> None" by simp
      then show ?R by blast
    next
      assume ?R
      then obtain ws t where h: "c # cs = ws @ v @ t" "\<forall>c\<in>set ws. is_space c"
        "match_len q (Some (last v)) t \<noteq> None" by blast
      have "ws \<noteq> []"
      proof
        assume "ws = []"
        with h(1) v True show False by (cases v) auto
      qed
      then obtain ws' where "ws = c # ws'" using h(1) by (cases ws) auto
      with h show ?L by auto
    qed
    finally show ?thesis .
  next
    case False
    have "match_len (Star Space # lits v @ q) prev (c # cs) = match_len (lits v @ q) prev (c # cs)"
      using False by simp
    then have "match_len (Star Space # lits v @ q) prev (c # cs) \<noteq> None \<longleftrightarrow>
      (\<exists>t. c # cs = v @ t \<and> match_len q (last_opt prev v) t \<noteq> None)"
      using match_lits_iff [of v q prev "c # cs"] by presburger
    also have "\<dots> \<longleftrightarrow> (\<exists>ws t. c # cs = ws @ v @ t \<and> (\<forall>c\<in>set ws. is_space c) \<and>
         match_len q (Some (last v)) t \<noteq> None)" (is "?L \<longleftrightarrow> ?R")
    proof
      assume ?L
      then obtain t where "c # cs = [] @ v @ t" "match_len q (Some (last v)) t \<noteq> None"
        using v by (auto simp: last_opt_nonempty)
      then show ?R by (metis empty_iff list.set(1))
    next
      assume ?R
      then obtain ws t where h: "c # cs = ws @ v @ t" "\<forall>c\<in>set ws. is_space c"
        "match_len q (Some (last v)) t \<noteq> None" by blast
      have "ws = []" using h(1,2) False by (cases ws) auto
      with h v show ?L by (auto simp: last_opt_nonempty)
    qed
    finally show ?thesis .
  qed
qed

lemma search_from_iff:
  "search_from p prev s \<longleftrightarrow>
     (\<exists>pre post. s = pre @ post \<and> match_len p (last_opt prev pre) post \<noteq> None)"
proof (induction s arbitrary: prev)
  case Nil
  show ?case by simp
next
  case (Cons c cs)
  show ?case (is "?L \<longleftrightarrow> ?R")
  proof
    assume ?L
    then consider "match_len p prev (c # cs) \<noteq> None" | "search_from p (Some c) cs" by auto
    then show ?R
    proof cases
      case 1
      then have "c # cs = [] @ (c # cs) \<and> match_len p (last_opt prev []) (c # cs) \<noteq> None" by simp
      then show ?thesis by blast
    next
      case 2
      then obtain pre post where "cs = pre @ post" "match_len p (last_opt (Some c) pre) post \<noteq> None"
        using Cons.IH by blast
      then have "c # cs = (c # pre) @ post \<and> match_len p (last_opt prev (c # pre)) post \<noteq> None" by simp
      then show ?thesis by blast
    qed
  next
    assume ?R
    then obtain pre post where h: "c # cs = pre @ post" "match_len p (last_opt prev pre) post \<noteq> None"
      by blast
    show ?L
    proof (cases pre)
      case Nil
      with h have "match_len p prev (c # cs) \<noteq> None" by simp
      then show ?thesis by simp
    next
      case (Cons d pre')
      with h have "cs = pre' @ post" "d = c" by auto
      with h Cons have "search_from p (Some c) cs" using Cons.IH by auto
      then show ?thesis by simp
    qed
  qed
qed

lemma word_before_last_opt: "word_before (last_opt None pre) = ends_with_word pre"
proof (cases "pre = []")
  case True
  then show ?thesis by (simp add: word_before_def ends_with_word_def)
next
  case False
  then obtain c cs where r: "rev pre = c # cs" by (cases "rev pre") auto
  then have "last pre = c" by (metis False last_rev list.sel(1) rev_rev_ident hd_rev)
  with False r show ?thesis
    by (simp add: last_opt_nonempty word_before_def ends_with_word_def)
qed

lemma word_after_starts: "word_after post = starts_with_word post"
  by (simp add: word_after_def starts_with_word_def)

lemma match_wordb_iff: "match_len (WordB # p) prev s \<noteq> None \<longleftrightarrow>
    at_boundary prev s \<and> match_len p prev s \<noteq> None"
  by simp

text \<open>What a rule's pattern finds: the two words, whitespace between them, and no word
  character on either side.\<close>

lemma phrase_search_iff:
  assumes u: "u \<noteq> []" "is_word (hd u)" and v: "v \<noteq> []" "\<not> is_space (hd v)" "is_word (last v)"
  shows "re_search ([WordB] @ lits u @ [Star Space] @ lits v @ [WordB]) s \<longleftrightarrow>
     (\<exists>pre ws post. s = pre @ u @ ws @ v @ post \<and> list_all is_space ws \<and>
        \<not> ends_with_word pre \<and> \<not> starts_with_word post)"
proof -
  let ?q = "Star Space # lits v @ [WordB]"
  have anchored: "match_len ([WordB] @ lits u @ [Star Space] @ lits v @ [WordB]) prev t \<noteq> None \<longleftrightarrow>
      \<not> word_before prev \<and> (\<exists>ws post. t = u @ ws @ v @ post \<and> list_all is_space ws \<and>
         \<not> starts_with_word post)" (is "?L \<longleftrightarrow> ?R") for prev t
  proof
    assume l: ?L
    then have b: "at_boundary prev t" and m: "match_len (lits u @ ?q) prev t \<noteq> None"
      by (simp_all split: if_splits)
    from m obtain t' where t': "t = u @ t'" "match_len ?q (last_opt prev u) t' \<noteq> None"
      using match_lits_iff [of u ?q prev t] by blast
    from t'(2) obtain ws post where w: "t' = ws @ v @ post" "\<forall>c\<in>set ws. is_space c"
      "match_len [WordB] (Some (last v)) post \<noteq> None"
      using match_star_space_iff [OF v(1,2), of "[WordB]" "last_opt prev u" t'] by blast
    from w(3) have "at_boundary (Some (last v)) post" by (simp split: if_splits)
    with v(3) have e: "\<not> starts_with_word post"
      by (simp add: at_boundary_def word_before_def word_after_starts)
    from b t'(1) u have "\<not> word_before prev"
      by (cases u) (auto simp: at_boundary_def word_after_def)
    with t'(1) w e show ?R by (auto simp: list_all_iff)
  next
    assume r: ?R
    then obtain ws post where w: "t = u @ ws @ v @ post" "list_all is_space ws"
      "\<not> starts_with_word post" and nb: "\<not> word_before prev" by blast
    from w(3) v(3) have mw: "match_len [WordB] (Some (last v)) post \<noteq> None"
      by (simp add: at_boundary_def word_before_def word_after_starts)
    from w(2) have sp: "\<forall>c\<in>set ws. is_space c" by (simp add: list_all_iff)
    have "\<exists>ws' t. ws @ v @ post = ws' @ v @ t \<and> (\<forall>c\<in>set ws'. is_space c) \<and>
        match_len [WordB] (Some (last v)) t \<noteq> None"
      using sp mw by blast
    then have "match_len ?q (last_opt prev u) (ws @ v @ post) \<noteq> None"
      by (rule match_star_space_iff [OF v(1,2), THEN iffD2])
    then have "match_len (lits u @ ?q) prev t \<noteq> None"
      using match_lits_iff [of u ?q prev t] w(1) by blast
    moreover from nb w(1) u have "at_boundary prev t"
      by (cases u) (auto simp: at_boundary_def word_after_def)
    ultimately show ?L by simp
  qed
  show ?thesis (is "?A \<longleftrightarrow> ?B")
  proof
    assume ?A
    then obtain pre t where "s = pre @ t"
      "match_len ([WordB] @ lits u @ [Star Space] @ lits v @ [WordB]) (last_opt None pre) t \<noteq> None"
      unfolding re_search_def search_from_iff by blast
    then show ?B using anchored [of "last_opt None pre" t]
      by (auto simp: word_before_last_opt)
  next
    assume ?B
    then obtain pre ws post where h: "s = pre @ u @ ws @ v @ post" "list_all is_space ws"
      "\<not> ends_with_word pre" "\<not> starts_with_word post" by blast
    then have "match_len ([WordB] @ lits u @ [Star Space] @ lits v @ [WordB])
        (last_opt None pre) (u @ ws @ v @ post) \<noteq> None"
      using anchored [of "last_opt None pre" "u @ ws @ v @ post"]
      by (auto simp: word_before_last_opt)
    with h(1) show ?A unfolding re_search_def search_from_iff by blast
  qed
qed

subsection \<open>Lower case and the classes of characters\<close>

lemma of_char_latin1_lower:
  "(of_char (latin1_lower c) :: nat) =
     (let n = of_char c in
      if (65 \<le> n \<and> n \<le> 90) \<or> (192 \<le> n \<and> n \<le> 222 \<and> n \<noteq> 215) then n + 32 else n)"
  by (auto simp: latin1_lower_def Let_def)

lemma latin1_space_lower [simp]: "latin1_space (latin1_lower c) = latin1_space c"
  unfolding latin1_space_def of_char_latin1_lower Let_def by auto

lemma latin1_word_lower [simp]: "latin1_word (latin1_lower c) = latin1_word c"
  unfolding latin1_word_def of_char_latin1_lower Let_def by auto

lemma lower_char_nonempty [simp]: "lower_char c \<noteq> []"
  by (cases c) simp_all

lemma list_all_space_lower_char [simp]: "list_all is_space (lower_char c) = is_space c"
  by (cases c) simp_all

lemma lower_append [simp]: "lower (a @ b) = lower a @ lower b"
  by (simp add: lower_def)

lemma lower_Nil [simp]: "lower [] = []" "lower s = [] \<longleftrightarrow> s = []"
  by (simp_all add: lower_def)

lemma lower_Cons [simp]: "lower (c # cs) = lower_char c @ lower cs"
  by (simp add: lower_def)

lemma latin1_word_i [simp]: "latin1_word (CHR ''i'')"
  by (simp add: latin1_word_def)

lemma list_all_space_lower [simp]: "list_all is_space (lower ws) = list_all is_space ws"
  by (induction ws) simp_all

lemma ends_with_word_snoc [simp]: "ends_with_word (xs @ [x]) = is_word x"
  by (simp add: ends_with_word_def)

lemma ends_with_word_Nil [simp]: "\<not> ends_with_word []"
  by (simp add: ends_with_word_def)

text \<open>Lower case never puts a word character at the end of a text that did not end with
  one, and keeps whether the text starts with one.\<close>

lemma ends_with_word_lower: "ends_with_word (lower pre) \<Longrightarrow> ends_with_word pre"
proof (cases pre rule: rev_cases)
  case Nil
  then show "ends_with_word (lower pre) \<Longrightarrow> ends_with_word pre" by simp
next
  case (snoc ys y)
  assume a: "ends_with_word (lower pre)"
  show "ends_with_word pre"
  proof (cases y)
    case (L1 c)
    with a snoc show ?thesis
      using ends_with_word_snoc [of "lower ys" "L1 (latin1_lower c)"] by simp
  next
    case I_dotted
    with a snoc have "ends_with_word ((lower ys @ [L1 (CHR ''i'')]) @ [Dot_above])" by simp
    then show ?thesis by (simp only: ends_with_word_snoc is_word.simps)
  next
    case Dot_above
    with a snoc show ?thesis
      using ends_with_word_snoc [of "lower ys" Dot_above] by simp
  qed
qed

lemma starts_with_word_lower [simp]: "starts_with_word (lower post) = starts_with_word post"
proof (cases post)
  case Nil
  then show ?thesis by simp
next
  case (Cons c cs)
  then show ?thesis by (cases c) (simp_all add: starts_with_word_def)
qed

text \<open>On a text without U+0130 lower case works code point by code point and keeps
  the classes.\<close>

lemma lower_without_I_dotted: "I_dotted \<notin> set s \<Longrightarrow> lower s = map lower_one s"
proof (induction s)
  case Nil
  show ?case by simp
next
  case (Cons c cs)
  then show ?case by (cases c) simp_all
qed

lemma is_word_lower_one: "c \<noteq> I_dotted \<Longrightarrow> is_word (lower_one c) = is_word c"
  by (cases c) simp_all

lemma ends_with_word_lower_plain:
  "I_dotted \<notin> set pre \<Longrightarrow> ends_with_word (lower pre) = ends_with_word pre"
proof (cases pre rule: rev_cases)
  case Nil
  then show "ends_with_word (lower pre) = ends_with_word pre" by simp
next
  case (snoc ys y)
  assume "I_dotted \<notin> set pre"
  with snoc have y: "y \<noteq> I_dotted" and "I_dotted \<notin> set ys" by auto
  then have "lower pre = map lower_one ys @ [lower_one y]"
    using snoc lower_without_I_dotted [of "ys @ [y]"] by simp
  then show "ends_with_word (lower pre) = ends_with_word pre"
    using snoc is_word_lower_one [OF y] by (simp only: ends_with_word_snoc)
qed

lemma lower_eq_appendD:
  assumes "I_dotted \<notin> set s" "lower s = x @ y"
  shows "\<exists>a b. s = a @ b \<and> lower a = x \<and> lower b = y"
proof -
  from assms have "map lower_one s = x @ y" by (simp add: lower_without_I_dotted)
  then obtain a b where ab: "s = a @ b" "map lower_one a = x" "map lower_one b = y"
    unfolding map_eq_append_conv by blast
  with assms(1) have "I_dotted \<notin> set a" "I_dotted \<notin> set b" by auto
  then have "lower a = x" "lower b = y" using ab by (simp_all add: lower_without_I_dotted)
  with ab(1) show ?thesis by blast
qed

subsection \<open>Occurrences of a phrase\<close>

lemma phrase_at_iff:
  assumes v: "v \<noteq> []" "\<not> is_space (hd v)"
  shows "phrase_at u v t \<longleftrightarrow> (\<exists>ws post. t = u @ ws @ v @ post \<and> list_all is_space ws)"
proof
  assume "phrase_at u v t"
  then have "prefix u t" "prefix v (dropWhile is_space (drop (length u) t))"
    by (simp_all add: phrase_at_def)
  then obtain r post where t: "t = u @ r" and d: "dropWhile is_space (drop (length u) t) = v @ post"
    unfolding prefix_def by blast
  from t d have d: "dropWhile is_space r = v @ post" by simp
  have "takeWhile is_space r @ dropWhile is_space r = r" by (rule takeWhile_dropWhile_id)
  with d have "r = takeWhile is_space r @ v @ post" by simp
  with t have "t = u @ takeWhile is_space r @ v @ post" by simp
  moreover have "list_all is_space (takeWhile is_space r)"
    unfolding list_all_iff using set_takeWhileD by fast
  ultimately show "\<exists>ws post. t = u @ ws @ v @ post \<and> list_all is_space ws"
    by blast
next
  assume "\<exists>ws post. t = u @ ws @ v @ post \<and> list_all is_space ws"
  then obtain ws post where t: "t = u @ ws @ v @ post" and w: "list_all is_space ws" by blast
  from v obtain c v' where c: "v = c # v'" "\<not> is_space c" by (cases v) auto
  have "dropWhile is_space (ws @ v @ post) = dropWhile is_space (v @ post)"
    using w by (simp add: list_all_iff)
  also have "\<dots> = v @ post" using c by simp
  finally show "phrase_at u v t" using t by (simp add: phrase_at_def)
qed


lemma occurs_iff:
  assumes v: "v \<noteq> []" "\<not> is_space (hd v)"
  shows "occurs u v s \<longleftrightarrow> (\<exists>pre ws post. s = pre @ u @ ws @ v @ post \<and> list_all is_space ws)"
proof
  assume "occurs u v s"
  then obtain t where "t \<in> set (suffixes s)" "phrase_at u v t"
    unfolding occurs_def list_ex_iff by blast
  then have "suffix t s" "phrase_at u v t" by (simp_all add: in_set_suffixes)
  then obtain pre ws post where "s = pre @ t" "t = u @ ws @ v @ post" "list_all is_space ws"
    unfolding suffix_def phrase_at_iff [OF v] by blast
  then have "s = pre @ u @ ws @ v @ post \<and> list_all is_space ws" by simp
  then show "\<exists>pre ws post. s = pre @ u @ ws @ v @ post \<and> list_all is_space ws" by blast
next
  assume "\<exists>pre ws post. s = pre @ u @ ws @ v @ post \<and> list_all is_space ws"
  then obtain pre ws post where h: "s = pre @ u @ ws @ v @ post" "list_all is_space ws" by blast
  have "phrase_at u v (u @ ws @ v @ post)"
    unfolding phrase_at_iff [OF v] using h(2) by blast
  moreover have "suffix (u @ ws @ v @ post) s" using h(1) by (simp add: suffix_def)
  then have "u @ ws @ v @ post \<in> set (suffixes s)" by (simp add: in_set_suffixes)
  ultimately show "occurs u v s"
    unfolding occurs_def list_ex_iff by blast
qed

subsection \<open>The rules and their phrases\<close>

lemma rules_are_phrases:
  "map fst RED_FLAGS = map (\<lambda>(u, v). phrase_pattern u v) hazard_phrases"
  by (simp add: RED_FLAGS_def hazard_phrases_def phrase_pattern_def)

lemma length_rules [simp]: "length RED_FLAGS = 5" "length hazard_phrases = 5"
  by (simp_all add: RED_FLAGS_def hazard_phrases_def)

lemma rule_pattern:
  assumes "i < length hazard_phrases"
  shows "fst (RED_FLAGS ! i) =
     phrase_pattern (fst (hazard_phrases ! i)) (snd (hazard_phrases ! i))"
proof -
  have "fst (RED_FLAGS ! i) = map fst RED_FLAGS ! i" using assms by simp
  also have "\<dots> = map (\<lambda>(u, v). phrase_pattern u v) hazard_phrases ! i"
    by (simp only: rules_are_phrases)
  also have "\<dots> = phrase_pattern (fst (hazard_phrases ! i)) (snd (hazard_phrases ! i))"
    using assms by (simp add: case_prod_beta)
  finally show ?thesis .
qed

lemma phrases_shape:
  "list_all (\<lambda>(u, v). u \<noteq> [] \<and> is_word (hd u) \<and> v \<noteq> [] \<and> \<not> is_space (hd v) \<and>
      is_word (last v) \<and> lower u = u \<and> lower v = v) hazard_phrases"
  by code_simp

lemma phrase_shape:
  assumes "i < length hazard_phrases"
  shows "fst (hazard_phrases ! i) \<noteq> []" "is_word (hd (fst (hazard_phrases ! i)))"
    "snd (hazard_phrases ! i) \<noteq> []" "\<not> is_space (hd (snd (hazard_phrases ! i)))"
    "is_word (last (snd (hazard_phrases ! i)))"
    "lower (fst (hazard_phrases ! i)) = fst (hazard_phrases ! i)"
    "lower (snd (hazard_phrases ! i)) = snd (hazard_phrases ! i)"
proof -
  have "(\<lambda>(u, v). u \<noteq> [] \<and> is_word (hd u) \<and> v \<noteq> [] \<and> \<not> is_space (hd v) \<and>
      is_word (last v) \<and> lower u = u \<and> lower v = v) (hazard_phrases ! i)"
    by (rule list_all_length [THEN iffD1, rule_format, OF phrases_shape assms])
  then show "fst (hazard_phrases ! i) \<noteq> []" "is_word (hd (fst (hazard_phrases ! i)))"
    "snd (hazard_phrases ! i) \<noteq> []" "\<not> is_space (hd (snd (hazard_phrases ! i)))"
    "is_word (last (snd (hazard_phrases ! i)))"
    "lower (fst (hazard_phrases ! i)) = fst (hazard_phrases ! i)"
    "lower (snd (hazard_phrases ! i)) = snd (hazard_phrases ! i)"
    by (simp_all add: case_prod_beta)
qed

lemma rule_search_lower:
  assumes i: "i < length hazard_phrases"
  shows "re_search (fst (RED_FLAGS ! i)) s \<longleftrightarrow>
     (\<exists>pre ws post. s = pre @ fst (hazard_phrases ! i) @ ws @ snd (hazard_phrases ! i) @ post \<and>
        list_all is_space ws \<and> \<not> ends_with_word pre \<and> \<not> starts_with_word post)"
  unfolding rule_pattern [OF i] phrase_pattern_def
  by (rule phrase_search_iff [OF phrase_shape(1,2,3,4,5) [OF i]])

text \<open>A whole phrase in the text, in any letter case, is found in its lower case.\<close>

lemma rule_search_if:
  assumes i: "i < length hazard_phrases"
    and h: "text = pre @ a @ ws @ b @ post"
      "lower a = fst (hazard_phrases ! i)" "lower b = snd (hazard_phrases ! i)"
      "list_all is_space ws" "\<not> ends_with_word pre" "\<not> starts_with_word post"
  shows "re_search (fst (RED_FLAGS ! i)) (lower text)"
proof -
  have "lower text = lower pre @ fst (hazard_phrases ! i) @ lower ws @ snd (hazard_phrases ! i) @ lower post"
    using h(1,2,3) by simp
  moreover have "list_all is_space (lower ws)" using h(4) by simp
  moreover have "\<not> ends_with_word (lower pre)" using h(5) ends_with_word_lower by blast
  moreover have "\<not> starts_with_word (lower post)" using h(6) by simp
  ultimately show ?thesis unfolding rule_search_lower [OF i] by blast
qed

text \<open>In a text without U+0130, what is found in the lower case stands in the text.\<close>

lemma rule_search_only_if:
  assumes i: "i < length hazard_phrases" and plain: "I_dotted \<notin> set text"
    and found: "re_search (fst (RED_FLAGS ! i)) (lower text)"
  shows "\<exists>pre a ws b post. text = pre @ a @ ws @ b @ post \<and>
        lower a = fst (hazard_phrases ! i) \<and> lower b = snd (hazard_phrases ! i) \<and>
        list_all is_space ws \<and> \<not> ends_with_word pre \<and> \<not> starts_with_word post"
proof -
  from found obtain pre' ws' post' where
    h: "lower text = pre' @ fst (hazard_phrases ! i) @ ws' @ snd (hazard_phrases ! i) @ post'"
      "list_all is_space ws'" "\<not> ends_with_word pre'" "\<not> starts_with_word post'"
    unfolding rule_search_lower [OF i] by blast
  from lower_eq_appendD [OF plain h(1)] obtain pre r1 where
    1: "text = pre @ r1" "lower pre = pre'"
       "lower r1 = fst (hazard_phrases ! i) @ ws' @ snd (hazard_phrases ! i) @ post'" by blast
  from 1(1) plain have p1: "I_dotted \<notin> set pre" "I_dotted \<notin> set r1" by auto
  from lower_eq_appendD [OF p1(2) 1(3)] obtain a r2 where
    2: "r1 = a @ r2" "lower a = fst (hazard_phrases ! i)"
       "lower r2 = ws' @ snd (hazard_phrases ! i) @ post'" by blast
  from 2(1) p1(2) have p2: "I_dotted \<notin> set r2" by auto
  from lower_eq_appendD [OF p2 2(3)] obtain ws r3 where
    3: "r2 = ws @ r3" "lower ws = ws'" "lower r3 = snd (hazard_phrases ! i) @ post'" by blast
  from 3(1) p2 have p3: "I_dotted \<notin> set r3" by auto
  from lower_eq_appendD [OF p3 3(3)] obtain b post where
    4: "r3 = b @ post" "lower b = snd (hazard_phrases ! i)" "lower post = post'" by blast
  have "text = pre @ a @ ws @ b @ post" using 1 2 3 4 by simp
  moreover have "list_all is_space ws" using h(2) 3(2) by auto
  moreover have "\<not> ends_with_word pre"
    using h(3) 1(2) ends_with_word_lower_plain [OF p1(1)] by simp
  moreover have "\<not> starts_with_word post" using h(4) 4(3) by auto
  ultimately show ?thesis using 2(2) 4(2) by blast
qed

subsection \<open>The loop over the rules\<close>

lemma scan_flags_first:
  "i < length flags \<Longrightarrow> re_search (fst (flags ! i)) t \<Longrightarrow>
   \<exists>j\<le>i. (\<forall>k<j. \<not> re_search (fst (flags ! k)) t) \<and> re_search (fst (flags ! j)) t \<and>
      scan_flags flags t = (True, [Error (snd (flags ! j)), Error emergency_notice])"
proof (induction flags arbitrary: i)
  case Nil
  then show ?case by simp
next
  case (Cons r flags)
  obtain p m where r: "r = (p, m)" by (cases r)
  show ?case
  proof (cases "re_search p t")
    case True
    with r have "(\<forall>k<0::nat. \<not> re_search (fst ((r # flags) ! k)) t) \<and>
      re_search (fst ((r # flags) ! 0)) t \<and>
      scan_flags (r # flags) t = (True, [Error (snd ((r # flags) ! 0)), Error emergency_notice])"
      by simp
    then show ?thesis by blast
  next
    case False
    with Cons.prems r obtain i' where i': "i = Suc i'" by (cases i) auto
    with Cons.prems have "i' < length flags" "re_search (fst (flags ! i')) t" by auto
    from Cons.IH [OF this] obtain j where j: "j \<le> i'"
      "\<forall>k<j. \<not> re_search (fst (flags ! k)) t" "re_search (fst (flags ! j)) t"
      "scan_flags flags t = (True, [Error (snd (flags ! j)), Error emergency_notice])" by blast
    have "\<forall>k<Suc j. \<not> re_search (fst ((r # flags) ! k)) t"
    proof (intro allI impI)
      fix k assume "k < Suc j"
      then show "\<not> re_search (fst ((r # flags) ! k)) t"
        using j(2) False r by (cases k) auto
    qed
    moreover have "scan_flags (r # flags) t =
        (True, [Error (snd ((r # flags) ! Suc j)), Error emergency_notice])"
      using False r j(4) by simp
    moreover have "Suc j \<le> i" using j(1) i' by simp
    moreover have "re_search (fst ((r # flags) ! Suc j)) t" using j(3) by simp
    ultimately show ?thesis by blast
  qed
qed

lemma scan_flags_none:
  "(\<And>i. i < length flags \<Longrightarrow> \<not> re_search (fst (flags ! i)) t) \<Longrightarrow>
   scan_flags flags t = (False, [])"
proof (induction flags)
  case Nil
  show ?case by simp
next
  case (Cons r flags)
  obtain p m where r: "r = (p, m)" by (cases r)
  have "\<not> re_search p t" using Cons.prems [of 0] r by simp
  moreover have "scan_flags flags t = (False, [])"
  proof (rule Cons.IH)
    fix i assume "i < length flags"
    then show "\<not> re_search (fst (flags ! i)) t" using Cons.prems [of "Suc i"] by simp
  qed
  ultimately show ?case using r by simp
qed

lemma check_red_flags_nonempty:
  "text \<noteq> [] \<Longrightarrow> check_red_flags text = scan_flags RED_FLAGS (lower text)"
  by (simp add: check_red_flags_def check_red_flags_in_def)

lemma check_red_flags_no_match:
  assumes "\<And>i. i < length hazard_phrases \<Longrightarrow> \<not> re_search (fst (RED_FLAGS ! i)) (lower text)"
  shows "check_red_flags text = (False, [])"
proof (cases "text = []")
  case True
  then show ?thesis by (simp add: check_red_flags_def check_red_flags_in_def)
next
  case False
  have "scan_flags RED_FLAGS (lower text) = (False, [])"
    by (rule scan_flags_none) (use assms in simp)
  with False show ?thesis by (simp add: check_red_flags_nonempty)
qed

section \<open>The hazard scanner: claims\<close>

text \<open>
  C2, amended. A text that holds the phrase of rule \<open>i\<close> as a whole phrase (its two words in
  any letter case, any whitespace between them, no word character directly before or
  behind) is flagged, and what is shown is the message of the first rule in declaration
  order whose pattern is found, followed by the notice; a text in which no phrase
  occurs at all is not flagged.
\<close>

theorem whole_phrase_detected:
  "(i < length hazard_phrases \<and> text = pre @ a @ ws @ b @ post \<and>
      lower a = fst (hazard_phrases ! i) \<and> lower b = snd (hazard_phrases ! i) \<and>
      list_all is_space ws \<and> \<not> ends_with_word pre \<and> \<not> starts_with_word post
    \<longrightarrow> (\<exists>j\<le>i. (\<forall>k<j. \<not> re_search (fst (RED_FLAGS ! k)) (lower text)) \<and>
           re_search (fst (RED_FLAGS ! j)) (lower text) \<and>
           check_red_flags text = (True, [Error (snd (RED_FLAGS ! j)), Error emergency_notice])))
   \<and> (\<not> list_ex (\<lambda>(u, v). occurs u v (lower text)) hazard_phrases
    \<longrightarrow> check_red_flags text = (False, []))"
proof (intro conjI impI)
  assume h: "i < length hazard_phrases \<and> text = pre @ a @ ws @ b @ post \<and>
      lower a = fst (hazard_phrases ! i) \<and> lower b = snd (hazard_phrases ! i) \<and>
      list_all is_space ws \<and> \<not> ends_with_word pre \<and> \<not> starts_with_word post"
  then have i: "i < length hazard_phrases" by simp
  have found: "re_search (fst (RED_FLAGS ! i)) (lower text)"
    by (rule rule_search_if [OF i, of "text" pre a ws b post]) (use h in simp_all)
  have "lower a \<noteq> []" using h phrase_shape(1) [OF i] by simp
  then have ne: "text \<noteq> []" using h by auto
  have "i < length RED_FLAGS" using i by simp
  from scan_flags_first [OF this found] show
    "\<exists>j\<le>i. (\<forall>k<j. \<not> re_search (fst (RED_FLAGS ! k)) (lower text)) \<and>
           re_search (fst (RED_FLAGS ! j)) (lower text) \<and>
           check_red_flags text = (True, [Error (snd (RED_FLAGS ! j)), Error emergency_notice])"
    unfolding check_red_flags_nonempty [OF ne] .
next
  assume n: "\<not> list_ex (\<lambda>(u, v). occurs u v (lower text)) hazard_phrases"
  show "check_red_flags text = (False, [])"
  proof (rule check_red_flags_no_match)
    fix i assume i: "i < length hazard_phrases"
    show "\<not> re_search (fst (RED_FLAGS ! i)) (lower text)"
    proof
      assume "re_search (fst (RED_FLAGS ! i)) (lower text)"
      then obtain pre ws post where
        "lower text = pre @ fst (hazard_phrases ! i) @ ws @ snd (hazard_phrases ! i) @ post"
        "list_all is_space ws"
        unfolding rule_search_lower [OF i] by blast
      then have "occurs (fst (hazard_phrases ! i)) (snd (hazard_phrases ! i)) (lower text)"
        unfolding occurs_iff [OF phrase_shape(3,4) [OF i]] by blast
      moreover have "hazard_phrases ! i \<in> set hazard_phrases" using i by simp
      ultimately have "list_ex (\<lambda>(u, v). occurs u v (lower text)) hazard_phrases"
        unfolding list_ex_iff by (auto simp: case_prod_beta)
      with n show False by simp
    qed
  qed
qed

theorem whole_phrase_detected_witness:
  "(3 < length hazard_phrases \<and>
    ustr ''I have Severe   bleeding and chest pain'' =
       ustr ''I have '' @ ustr ''Severe'' @ ustr ''   '' @ ustr ''bleeding''
         @ ustr '' and chest pain'' \<and>
    lower (ustr ''Severe'') = fst (hazard_phrases ! 3) \<and>
    lower (ustr ''bleeding'') = snd (hazard_phrases ! 3) \<and>
    list_all is_space (ustr ''   '') \<and> \<not> ends_with_word (ustr ''I have '') \<and>
    \<not> starts_with_word (ustr '' and chest pain'')) \<and>
   check_red_flags (ustr ''I have Severe   bleeding and chest pain'') =
     (True, [Error (siren @ '' CALL 911: May indicate heart attack!''), Error emergency_notice]) \<and>
   \<not> list_ex (\<lambda>(u, v). occurs u v (lower (ustr ''I have a headache''))) hazard_phrases \<and>
   check_red_flags (ustr ''I have a headache'') = (False, [])"
proof -
  let ?t = "ustr ''I have Severe   bleeding and chest pain''"
  have hyp: "3 < length hazard_phrases \<and>
    ?t = ustr ''I have '' @ ustr ''Severe'' @ ustr ''   '' @ ustr ''bleeding''
         @ ustr '' and chest pain'' \<and>
    lower (ustr ''Severe'') = fst (hazard_phrases ! 3) \<and>
    lower (ustr ''bleeding'') = snd (hazard_phrases ! 3) \<and>
    list_all is_space (ustr ''   '') \<and> \<not> ends_with_word (ustr ''I have '') \<and>
    \<not> starts_with_word (ustr '' and chest pain'')"
    by code_simp
  have first: "re_search (fst (RED_FLAGS ! 0)) (lower ?t)" by code_simp
  from whole_phrase_detected [of 3 ?t "ustr ''I have ''" "ustr ''Severe''" "ustr ''   ''"
      "ustr ''bleeding''" "ustr '' and chest pain''"] hyp
  obtain j where j: "\<forall>k<j. \<not> re_search (fst (RED_FLAGS ! k)) (lower ?t)"
    "check_red_flags ?t = (True, [Error (snd (RED_FLAGS ! j)), Error emergency_notice])"
    by blast
  have "j = 0"
  proof (rule ccontr)
    assume "j \<noteq> 0"
    then have "0 < j" by simp
    with j(1) first show False by blast
  qed
  moreover have "snd (RED_FLAGS ! 0) = siren @ '' CALL 911: May indicate heart attack!''"
    by (simp add: RED_FLAGS_def)
  ultimately have shown: "check_red_flags ?t =
     (True, [Error (siren @ '' CALL 911: May indicate heart attack!''), Error emergency_notice])"
    using j(2) by simp
  have none: "\<not> list_ex (\<lambda>(u, v). occurs u v (lower (ustr ''I have a headache''))) hazard_phrases"
    by code_simp
  with whole_phrase_detected [of _ "ustr ''I have a headache''"]
  have "check_red_flags (ustr ''I have a headache'') = (False, [])" by blast
  with hyp shown none show ?thesis by blast
qed

text \<open>
  C2 as it is written fails: \<open>I have chest pains\<close> contains the phrase \<open>chest pain\<close>,
  exactly, and is not flagged, because the pattern asks for a word boundary behind \<open>pain\<close>.
\<close>

theorem contained_phrase_counterexample:
  "ustr ''I have chest pains'' = ustr ''I have '' @ ustr ''chest pain'' @ ustr ''s'' \<and>
   check_red_flags (ustr ''I have chest pains'') = (False, [])"
  by code_simp

text \<open>
  C3, amended. What is scanned is the lower case of the text. If wherever a hazard phrase
  stands in the lower case of the text (any whitespace between its words) a word
  character stands directly before it or directly behind it, the text is not flagged.
  For a text without the letter U+0130 the same holds of the text itself: if wherever a
  hazard phrase stands in it (its words in any letter case, any whitespace between them)
  a word character stands directly before or directly behind, the text is not flagged.
\<close>

theorem phrase_inside_word_not_detected:
  "((\<forall>i pre ws post.
       i < length hazard_phrases \<and>
       lower text = pre @ fst (hazard_phrases ! i) @ ws @ snd (hazard_phrases ! i) @ post \<and>
       list_all is_space ws \<longrightarrow> ends_with_word pre \<or> starts_with_word post)
    \<longrightarrow> check_red_flags text = (False, []))
   \<and> (I_dotted \<notin> set text \<and>
      (\<forall>i pre a ws b post.
         i < length hazard_phrases \<and> text = pre @ a @ ws @ b @ post \<and>
         lower a = fst (hazard_phrases ! i) \<and> lower b = snd (hazard_phrases ! i) \<and>
         list_all is_space ws \<longrightarrow> ends_with_word pre \<or> starts_with_word post)
    \<longrightarrow> check_red_flags text = (False, []))"
proof (intro conjI impI)
  assume a: "\<forall>i pre ws post.
       i < length hazard_phrases \<and>
       lower text = pre @ fst (hazard_phrases ! i) @ ws @ snd (hazard_phrases ! i) @ post \<and>
       list_all is_space ws \<longrightarrow> ends_with_word pre \<or> starts_with_word post"
  show "check_red_flags text = (False, [])"
  proof (rule check_red_flags_no_match)
    fix i assume i: "i < length hazard_phrases"
    show "\<not> re_search (fst (RED_FLAGS ! i)) (lower text)"
      unfolding rule_search_lower [OF i] using a i by blast
  qed
next
  assume b: "I_dotted \<notin> set text \<and>
      (\<forall>i pre a ws b post.
         i < length hazard_phrases \<and> text = pre @ a @ ws @ b @ post \<and>
         lower a = fst (hazard_phrases ! i) \<and> lower b = snd (hazard_phrases ! i) \<and>
         list_all is_space ws \<longrightarrow> ends_with_word pre \<or> starts_with_word post)"
  then have plain: "I_dotted \<notin> set text" by simp
  show "check_red_flags text = (False, [])"
  proof (rule check_red_flags_no_match)
    fix i assume i: "i < length hazard_phrases"
    show "\<not> re_search (fst (RED_FLAGS ! i)) (lower text)"
    proof
      assume "re_search (fst (RED_FLAGS ! i)) (lower text)"
      from rule_search_only_if [OF i plain this] obtain pre a ws c post where
        "text = pre @ a @ ws @ c @ post" "lower a = fst (hazard_phrases ! i)"
        "lower c = snd (hazard_phrases ! i)" "list_all is_space ws"
        "\<not> ends_with_word pre" "\<not> starts_with_word post" by blast
      with b i show False by blast
    qed
  qed
qed

theorem phrase_inside_word_not_detected_witness:
  "ustr ''mychest pain and Chest  painful''
     = ustr ''my'' @ ustr ''chest'' @ ustr '' '' @ ustr ''pain'' @ ustr '' and Chest  painful'' \<and>
   ends_with_word (ustr ''my'') \<and>
   ustr ''mychest pain and Chest  painful''
     = ustr ''mychest pain and '' @ ustr ''Chest'' @ ustr ''  '' @ ustr ''pain'' @ ustr ''ful'' \<and>
   starts_with_word (ustr ''ful'') \<and>
   I_dotted \<notin> set (ustr ''mychest pain and Chest  painful'') \<and>
   check_red_flags (ustr ''mychest pain and Chest  painful'') = (False, [])"
proof -
  let ?t = "ustr ''mychest pain and Chest  painful''"
  have nowhere: "list_all (\<lambda>r. \<not> re_search (fst r) (lower ?t)) RED_FLAGS" by code_simp
  have plain: "I_dotted \<notin> set ?t" by (simp add: ustr_def)
  have low: "\<forall>i pre ws post.
       i < length hazard_phrases \<and>
       lower ?t = pre @ fst (hazard_phrases ! i) @ ws @ snd (hazard_phrases ! i) @ post \<and>
       list_all is_space ws \<longrightarrow> ends_with_word pre \<or> starts_with_word post"
  proof (intro allI impI)
    fix i pre ws post
    assume h: "i < length hazard_phrases \<and>
       lower ?t = pre @ fst (hazard_phrases ! i) @ ws @ snd (hazard_phrases ! i) @ post \<and>
       list_all is_space ws"
    then have i: "i < length hazard_phrases" by simp
    then have "i < length RED_FLAGS" by simp
    with nowhere have "\<not> re_search (fst (RED_FLAGS ! i)) (lower ?t)"
      unfolding list_all_length by blast
    then show "ends_with_word pre \<or> starts_with_word post"
      unfolding rule_search_lower [OF i] using h by blast
  qed
  have orig: "\<forall>i pre a ws b post.
         i < length hazard_phrases \<and> ?t = pre @ a @ ws @ b @ post \<and>
         lower a = fst (hazard_phrases ! i) \<and> lower b = snd (hazard_phrases ! i) \<and>
         list_all is_space ws \<longrightarrow> ends_with_word pre \<or> starts_with_word post"
  proof (intro allI impI)
    fix i pre a ws b post
    assume h: "i < length hazard_phrases \<and> ?t = pre @ a @ ws @ b @ post \<and>
         lower a = fst (hazard_phrases ! i) \<and> lower b = snd (hazard_phrases ! i) \<and>
         list_all is_space ws"
    then have i: "i < length hazard_phrases" by simp
    then have "i < length RED_FLAGS" by simp
    with nowhere have n: "\<not> re_search (fst (RED_FLAGS ! i)) (lower ?t)"
      unfolding list_all_length by blast
    show "ends_with_word pre \<or> starts_with_word post"
    proof (rule ccontr)
      assume "\<not> (ends_with_word pre \<or> starts_with_word post)"
      then have "re_search (fst (RED_FLAGS ! i)) (lower ?t)"
        using rule_search_if [OF i, of ?t pre a ws b post] h by blast
      with n show False ..
    qed
  qed
  have parts: "?t = ustr ''my'' @ ustr ''chest'' @ ustr '' '' @ ustr ''pain''
       @ ustr '' and Chest  painful'' \<and>
   ends_with_word (ustr ''my'') \<and>
   ?t = ustr ''mychest pain and '' @ ustr ''Chest'' @ ustr ''  '' @ ustr ''pain'' @ ustr ''ful'' \<and>
   starts_with_word (ustr ''ful'')" by code_simp
  from phrase_inside_word_not_detected [of ?t] low orig plain parts show ?thesis by blast
qed

text \<open>
  C3 as it is written fails. In the text made of the letter U+0130 and \<open>chest pain\<close> the
  phrase stands once, directly behind a letter, with no word boundary at its start; the
  lower case of the letter ends with the mark U+0307, which is no word character, so the
  pattern finds a boundary there and the text is flagged.
\<close>

theorem letter_before_phrase_counterexample:
  "I_dotted # ustr ''chest pain'' = [I_dotted] @ ustr ''chest'' @ ustr '' '' @ ustr ''pain'' @ [] \<and>
   is_word I_dotted \<and> ends_with_word [I_dotted] \<and>
   lower (I_dotted # ustr ''chest pain'') = L1 (CHR ''i'') # Dot_above # ustr ''chest pain'' \<and>
   check_red_flags (I_dotted # ustr ''chest pain'') =
     (True, [Error (siren @ '' CALL 911: May indicate heart attack!''), Error emergency_notice])"
  by code_simp

text \<open>
  C9, amended. The two words of a rule written together, with nothing between them, are
  flagged when no word character stands directly before or behind them: the text that is
  just the fused phrase shows that rule's message, and so is flagged any text that holds
  the fused words, in any letter case, between non-word characters or the ends of the
  text.
\<close>

theorem fused_words_detected:
  "(i < length hazard_phrases \<longrightarrow>
      check_red_flags (fst (hazard_phrases ! i) @ snd (hazard_phrases ! i)) =
        (True, [Error (snd (RED_FLAGS ! i)), Error emergency_notice]))
   \<and> (i < length hazard_phrases \<and> text = pre @ a @ b @ post \<and>
      lower a = fst (hazard_phrases ! i) \<and> lower b = snd (hazard_phrases ! i) \<and>
      \<not> ends_with_word pre \<and> \<not> starts_with_word post
    \<longrightarrow> fst (check_red_flags text))"
proof (intro conjI impI)
  assume i: "i < length hazard_phrases"
  have all: "list_all2 (\<lambda>(u, v) (p, m).
      check_red_flags (u @ v) = (True, [Error m, Error emergency_notice]))
      hazard_phrases RED_FLAGS"
    by code_simp
  have "(\<lambda>(u, v) (p, m). check_red_flags (u @ v) = (True, [Error m, Error emergency_notice]))
      (hazard_phrases ! i) (RED_FLAGS ! i)"
    by (rule list_all2_nthD [OF all i])
  then show "check_red_flags (fst (hazard_phrases ! i) @ snd (hazard_phrases ! i)) =
        (True, [Error (snd (RED_FLAGS ! i)), Error emergency_notice])"
    by (simp add: case_prod_beta)
next
  assume h: "i < length hazard_phrases \<and> text = pre @ a @ b @ post \<and>
      lower a = fst (hazard_phrases ! i) \<and> lower b = snd (hazard_phrases ! i) \<and>
      \<not> ends_with_word pre \<and> \<not> starts_with_word post"
  then have i: "i < length hazard_phrases" by simp
  have found: "re_search (fst (RED_FLAGS ! i)) (lower text)"
    by (rule rule_search_if [OF i, of "text" pre a "[]" b post]) (use h in simp_all)
  have "lower a \<noteq> []" using h phrase_shape(1) [OF i] by simp
  then have ne: "text \<noteq> []" using h by auto
  have "i < length RED_FLAGS" using i by simp
  from scan_flags_first [OF this found] show "fst (check_red_flags text)"
    unfolding check_red_flags_nonempty [OF ne] by auto
qed

theorem fused_words_detected_witness:
  "0 < length hazard_phrases \<and>
   check_red_flags (ustr ''chestpain'') =
     (True, [Error (siren @ '' CALL 911: May indicate heart attack!''), Error emergency_notice]) \<and>
   ustr ''I have ChestPain!'' = ustr ''I have '' @ ustr ''Chest'' @ ustr ''Pain'' @ ustr ''!'' \<and>
   lower (ustr ''Chest'') = fst (hazard_phrases ! 0) \<and>
   lower (ustr ''Pain'') = snd (hazard_phrases ! 0) \<and>
   \<not> ends_with_word (ustr ''I have '') \<and> \<not> starts_with_word (ustr ''!'') \<and>
   fst (check_red_flags (ustr ''I have ChestPain!''))"
proof -
  have hyp: "0 < length hazard_phrases \<and>
   ustr ''I have ChestPain!'' = ustr ''I have '' @ ustr ''Chest'' @ ustr ''Pain'' @ ustr ''!'' \<and>
   lower (ustr ''Chest'') = fst (hazard_phrases ! 0) \<and>
   lower (ustr ''Pain'') = snd (hazard_phrases ! 0) \<and>
   \<not> ends_with_word (ustr ''I have '') \<and> \<not> starts_with_word (ustr ''!'')" by code_simp
  have names: "fst (hazard_phrases ! 0) @ snd (hazard_phrases ! 0) = ustr ''chestpain''"
    "snd (RED_FLAGS ! 0) = siren @ '' CALL 911: May indicate heart attack!''"
    by (simp_all add: hazard_phrases_def RED_FLAGS_def ustr_def)
  have inst: "(0 < length hazard_phrases \<longrightarrow>
      check_red_flags (fst (hazard_phrases ! 0) @ snd (hazard_phrases ! 0)) =
        (True, [Error (snd (RED_FLAGS ! 0)), Error emergency_notice]))
   \<and> (0 < length hazard_phrases \<and>
      ustr ''I have ChestPain!'' = ustr ''I have '' @ ustr ''Chest'' @ ustr ''Pain'' @ ustr ''!'' \<and>
      lower (ustr ''Chest'') = fst (hazard_phrases ! 0) \<and>
      lower (ustr ''Pain'') = snd (hazard_phrases ! 0) \<and>
      \<not> ends_with_word (ustr ''I have '') \<and> \<not> starts_with_word (ustr ''!'')
    \<longrightarrow> fst (check_red_flags (ustr ''I have ChestPain!'')))"
    by (rule fused_words_detected)
  from inst hyp have 1: "check_red_flags (fst (hazard_phrases ! 0) @ snd (hazard_phrases ! 0)) =
        (True, [Error (snd (RED_FLAGS ! 0)), Error emergency_notice])"
    and 2: "fst (check_red_flags (ustr ''I have ChestPain!''))" by blast+
  from 1 have "check_red_flags (ustr ''chestpain'') =
     (True, [Error (siren @ '' CALL 911: May indicate heart attack!''), Error emergency_notice])"
    unfolding names .
  with hyp 2 show ?thesis by blast
qed

text \<open>
  C9 as it is written fails: in \<open>chestpains\<close> and in \<open>mychestpain\<close> the two words of the
  first rule stand together with nothing between them, and neither text is flagged,
  because the pattern asks for a word boundary on both sides.
\<close>

theorem fused_words_in_word_counterexample:
  "ustr ''chestpains'' = ustr ''chest'' @ ustr ''pain'' @ ustr ''s'' \<and>
   check_red_flags (ustr ''chestpains'') = (False, []) \<and>
   ustr ''mychestpain'' = ustr ''my'' @ ustr ''chest'' @ ustr ''pain'' \<and>
   check_red_flags (ustr ''mychestpain'') = (False, [])"
  by code_simp

text \<open>
  C10. The empty text is answered before the loop over the rules: nothing is flagged and
  nothing is shown, whatever the table of rules holds.
\<close>

theorem empty_text_not_scanned:
  "check_red_flags [] = (False, []) \<and> check_red_flags_in flags [] = (False, [])"
  by (simp add: check_red_flags_def check_red_flags_in_def)

theorem empty_text_not_scanned_witness:
  "scan_flags [([], ''always'')] [] = (True, [Error ''always'', Error emergency_notice]) \<and>
   check_red_flags_in [([], ''always'')] [] = (False, []) \<and>
   check_red_flags [] = (False, [])"
  using empty_text_not_scanned [of "[([], ''always'')]"] by (simp add: re_search_def)

section \<open>Normalisation of extracted text\<close>

lemma latin1_space_basic [simp]: "latin1_space (CHR '' '')" "latin1_space (CHR 0x0A)"
  by (simp_all add: latin1_space_def)

lemma is_space_newline [simp]: "is_space newline"
  by (simp add: newline_def)

lemma ustr_space: "ustr '' '' = [L1 (CHR '' '')]"
  by (simp add: ustr_def)

subsection \<open>The words of a text\<close>

lemma ws_words_Nil [simp]: "ws_words [] = []"
  by (simp add: ws_words.simps)

lemma ws_words_space: "is_space c \<Longrightarrow> ws_words (c # cs) = ws_words cs"
proof -
  assume c: "is_space c"
  have "ws_words (c # cs) = (case dropWhile is_space (c # cs) of
        [] \<Rightarrow> []
      | c # t \<Rightarrow> (c # takeWhile (\<lambda>x. \<not> is_space x) t)
                  # ws_words (dropWhile (\<lambda>x. \<not> is_space x) t))"
    by (rule ws_words.simps)
  also have "dropWhile is_space (c # cs) = dropWhile is_space cs" using c by simp
  finally show ?thesis by (simp add: ws_words.simps [of cs])
qed

lemma ws_words_nonspace:
  "\<not> is_space c \<Longrightarrow> ws_words (c # cs) =
     (c # takeWhile (\<lambda>x. \<not> is_space x) cs) # ws_words (dropWhile (\<lambda>x. \<not> is_space x) cs)"
  by (simp add: ws_words.simps [of "c # cs"])

lemma ws_words_all_space: "list_all is_space s \<Longrightarrow> ws_words s = []"
  by (induction s) (simp_all add: ws_words_space)

lemma ws_words_empty_iff: "ws_words s = [] \<longleftrightarrow> list_all is_space s"
proof (induction s)
  case Nil
  show ?case by simp
next
  case (Cons c cs)
  show ?case
  proof (cases "is_space c")
    case True
    then show ?thesis using Cons by (simp add: ws_words_space)
  next
    case False
    then show ?thesis by (simp add: ws_words_nonspace)
  qed
qed

lemma ws_words_word_append:
  assumes w: "is_wordlike w" and r: "r = [] \<or> is_space (hd r)"
  shows "ws_words (w @ r) = w # ws_words r"
proof -
  from w obtain c w' where cw: "w = c # w'" "\<not> is_space c" "list_all (\<lambda>x. \<not> is_space x) w'"
    by (cases w) (auto simp: is_wordlike_def)
  have t: "takeWhile (\<lambda>x. \<not> is_space x) (w' @ r) = w'"
  proof (cases r)
    case Nil
    then show ?thesis using cw(3) by (simp add: list_all_iff)
  next
    case (Cons d r')
    with r have "is_space d" by simp
    then show ?thesis using cw(3) Cons by (simp add: takeWhile_append2 list_all_iff)
  qed
  have d: "dropWhile (\<lambda>x. \<not> is_space x) (w' @ r) = r"
  proof (cases r)
    case Nil
    then show ?thesis using cw(3) by (simp add: list_all_iff)
  next
    case (Cons d r')
    with r have "is_space d" by simp
    then show ?thesis using cw(3) Cons by (simp add: dropWhile_append2 list_all_iff)
  qed
  show ?thesis using cw(1,2) t d by (simp add: ws_words_nonspace)
qed

lemma ws_words_wordlike: "list_all is_wordlike (ws_words s)"
proof (induction s rule: length_induct)
  case (1 s)
  show ?case
  proof (cases s)
    case Nil
    then show ?thesis by simp
  next
    case (Cons c cs)
    show ?thesis
    proof (cases "is_space c")
      case True
      have "length cs < length s" using Cons by simp
      with 1 have "list_all is_wordlike (ws_words cs)" by blast
      then show ?thesis using True Cons by (simp add: ws_words_space)
    next
      case False
      have "length (dropWhile (\<lambda>x. \<not> is_space x) cs) \<le> length cs"
        by (rule length_dropWhile_le)
      then have "length (dropWhile (\<lambda>x. \<not> is_space x) cs) < length s" using Cons by simp
      with 1 have "list_all is_wordlike (ws_words (dropWhile (\<lambda>x. \<not> is_space x) cs))" by blast
      moreover have "is_wordlike (c # takeWhile (\<lambda>x. \<not> is_space x) cs)"
        using False unfolding is_wordlike_def list_all_iff
        by (auto dest: set_takeWhileD)
      ultimately show ?thesis using False Cons by (simp add: ws_words_nonspace)
    qed
  qed
qed

subsection \<open>Joining words with single spaces\<close>

lemma join_Cons: "join sep (w # ws) = (if ws = [] then w else w @ sep @ join sep ws)"
  by (cases ws) simp_all

lemma join_wordlike_ends:
  assumes "list_all is_wordlike ws" "ws \<noteq> []"
  shows "join (ustr '' '') ws \<noteq> [] \<and> \<not> is_space (hd (join (ustr '' '') ws)) \<and> \<not> is_space (last (join (ustr '' '') ws))"
  using assms
proof (induction ws)
  case Nil
  then show ?case by simp
next
  case (Cons w ws)
  from Cons.prems have w: "w \<noteq> []" "\<not> is_space (hd w)" "\<not> is_space (last w)"
    by (auto simp: is_wordlike_def list_all_iff)
  show ?case
  proof (cases "ws = []")
    case True
    with w show ?thesis by simp
  next
    case False
    with Cons have "join (ustr '' '') ws \<noteq> []" "\<not> is_space (last (join (ustr '' '') ws))" by auto
    then show ?thesis using w False by (simp add: join_Cons)
  qed
qed

lemma ws_words_join:
  "list_all is_wordlike ws \<Longrightarrow> ws_words (join (ustr '' '') ws) = ws"
proof (induction ws)
  case Nil
  show ?case by simp
next
  case (Cons w ws)
  then have w: "is_wordlike w" and ih: "ws_words (join (ustr '' '') ws) = ws" by simp_all
  show ?case
  proof (cases "ws = []")
    case True
    have "ws_words (w @ []) = w # ws_words []"
      by (rule ws_words_word_append [OF w]) simp
    with True show ?thesis by simp
  next
    case False
    have sp: "is_space (L1 (CHR '' ''))" by simp
    have "ws_words (w @ ((ustr '' '') @ join (ustr '' '') ws)) = w # ws_words ((ustr '' '') @ join (ustr '' '') ws)"
      by (rule ws_words_word_append [OF w]) (simp add: ustr_space)
    also have "ws_words ((ustr '' '') @ join (ustr '' '') ws) = ws_words (join (ustr '' '') ws)"
      using ws_words_space [OF sp] by (simp add: ustr_space)
    finally show ?thesis using False ih by (simp add: join_Cons)
  qed
qed

subsection \<open>The two substitutions\<close>

lemma match_star_space_only:
  "match_len [Star Space] prev s = Some (length (takeWhile is_space s))"
  by (induction s arbitrary: prev) simp_all

lemma match_space_run:
  "match_len space_run prev (c # cs) =
     (if is_space c then Some (Suc (length (takeWhile is_space cs))) else None)"
  by (simp add: space_run_def match_star_space_only)

lemma collapse_space:
  assumes "is_space c"
  shows "re_sub space_run r prev (c # cs) =
     r @ re_sub space_run r (Some ((c # cs) ! length (takeWhile is_space cs)))
           (dropWhile is_space cs)"
  using assms by (simp add: match_space_run dropWhile_eq_drop)

lemma collapse_nonspace:
  "\<not> is_space c \<Longrightarrow> re_sub space_run r prev (c # cs) = c # re_sub space_run r (Some c) cs"
  by (simp add: match_space_run)

lemma collapse_prev: "re_sub space_run r prev s = re_sub space_run r prev' s"
proof (induction s arbitrary: prev prev' rule: length_induct)
  case (1 s)
  show ?case
  proof (cases s)
    case Nil
    then show ?thesis by simp
  next
    case (Cons c cs)
    show ?thesis
    proof (cases "is_space c")
      case True
      show ?thesis unfolding Cons collapse_space [OF True] ..
    next
      case False
      show ?thesis unfolding Cons collapse_nonspace [OF False] ..
    qed
  qed
qed

lemma collapse_space':
  "is_space c \<Longrightarrow> re_sub space_run r None (c # cs) = r @ re_sub space_run r None (dropWhile is_space cs)"
  using collapse_space [of c r None cs] collapse_prev [of r _ "dropWhile is_space cs" None]
  by simp

lemma collapse_nonspace':
  "\<not> is_space c \<Longrightarrow> re_sub space_run r None (c # cs) = c # re_sub space_run r None cs"
  using collapse_nonspace [of c r None cs] collapse_prev [of r "Some c" cs None] by simp

lemma collapse_word:
  "list_all (\<lambda>x. \<not> is_space x) w \<Longrightarrow>
   re_sub space_run r None (w @ t) = w @ re_sub space_run r None t"
  by (induction w) (simp_all add: collapse_nonspace' del: re_sub.simps)

lemma match_single_newline:
  "match_len single_newline prev (c # cs) =
     (if prev \<noteq> Some newline \<and> c = newline \<and> (case cs of [] \<Rightarrow> True | d # _ \<Rightarrow> d \<noteq> newline)
      then Some 1 else None)"
  by (cases prev; cases cs) (auto simp: single_newline_def)

lemma sub_single_newline_Cons:
  "re_sub single_newline r prev (c # cs) =
     (if prev \<noteq> Some newline \<and> c = newline \<and> (case cs of [] \<Rightarrow> True | d # _ \<Rightarrow> d \<noteq> newline)
      then r else [c]) @ re_sub single_newline r (Some c) cs"
  by (simp add: match_single_newline)

lemma sub_single_newline_class:
  "list_all2 same_class (re_sub single_newline (ustr '' '') prev s) s"
proof (induction s arbitrary: prev)
  case Nil
  show ?case by simp
next
  case (Cons c cs)
  show ?case unfolding sub_single_newline_Cons using Cons [of "Some c"]
    by (auto simp: same_class_def ustr_space)
qed

lemma same_class_dropWhile:
  "list_all2 same_class a b \<Longrightarrow>
   list_all2 same_class (dropWhile is_space a) (dropWhile is_space b)"
  by (induction a b rule: list_all2_induct) (auto simp: same_class_def)

lemma collapse_same_class:
  "list_all2 same_class a b \<Longrightarrow>
   re_sub space_run r None a = re_sub space_run r None b"
proof (induction a arbitrary: b rule: length_induct)
  case (1 a)
  show ?case
  proof (cases a)
    case Nil
    with 1(2) show ?thesis by simp
  next
    case (Cons x a')
    with 1(2) obtain y b' where b: "b = y # b'" "same_class x y" "list_all2 same_class a' b'"
      by (auto simp: list_all2_Cons1)
    show ?thesis
    proof (cases "is_space x")
      case True
      with b(2) have y: "is_space y" by (auto simp: same_class_def)
      have "length (dropWhile is_space a') \<le> length a'" by (rule length_dropWhile_le)
      then have "length (dropWhile is_space a') < length a" using Cons by simp
      moreover have "list_all2 same_class (dropWhile is_space a') (dropWhile is_space b')"
        by (rule same_class_dropWhile [OF b(3)])
      ultimately have "re_sub space_run r None (dropWhile is_space a')
          = re_sub space_run r None (dropWhile is_space b')" using 1(1) by blast
      then show ?thesis unfolding Cons b(1) collapse_space' [OF True] collapse_space' [OF y]
        by simp
    next
      case False
      with b(2) have y: "y = x" by (auto simp: same_class_def)
      have "length a' < length a" using Cons by simp
      with b(3) 1(1) have "re_sub space_run r None a' = re_sub space_run r None b'" by blast
      then show ?thesis unfolding Cons b(1) y collapse_nonspace' [OF False] by simp
    qed
  qed
qed

text \<open>Neither pattern given to \<open>re.sub\<close> matches the empty string.\<close>

lemma substitutions_consume:
  "match_len space_run prev s \<noteq> Some 0" "match_len single_newline prev s \<noteq> Some 0"
proof -
  show "match_len space_run prev s \<noteq> Some 0"
    by (cases s) (simp_all add: space_run_def match_space_run [unfolded space_run_def])
  show "match_len single_newline prev s \<noteq> Some 0"
    by (cases s) (simp_all add: match_single_newline, simp add: single_newline_def)
qed

subsection \<open>The collapsed text\<close>

lemma last_dropWhile_nonempty:
  "dropWhile P xs \<noteq> [] \<Longrightarrow> last (dropWhile P xs) = last xs"
proof -
  assume a: "dropWhile P xs \<noteq> []"
  have "last xs = last (takeWhile P xs @ dropWhile P xs)" by simp
  also have "\<dots> = last (dropWhile P xs)" using a by (simp only: last_append if_False)
  finally show ?thesis by simp
qed

lemma wordlike_last: "is_wordlike w \<Longrightarrow> \<not> is_space (last w)"
  using last_in_set [of w] by (auto simp: is_wordlike_def list_all_iff)

lemma lead_dropWhile [simp]: "lead (dropWhile is_space s) = []"
proof (cases "dropWhile is_space s")
  case Nil
  show ?thesis unfolding Nil by (simp add: lead_def)
next
  case (Cons c t)
  then have "\<not> is_space (hd (dropWhile is_space s))"
    using hd_dropWhile [of is_space s] by simp
  with Cons show ?thesis by (simp add: lead_def)
qed

lemma collapse_shape:
  "re_sub space_run (ustr '' '') None s = lead s @ join (ustr '' '') (ws_words s) @ trail s"
proof (induction s rule: length_induct)
  case (1 s)
  show ?case
  proof (cases s)
    case Nil
    then show ?thesis by (simp add: lead_def trail_def)
  next
    case (Cons c cs)
    show ?thesis
    proof (cases "is_space c")
      case True
      let ?t = "dropWhile is_space cs"
      have "length ?t \<le> length cs" by (rule length_dropWhile_le)
      then have "length ?t < length s" using Cons by simp
      with 1 have ih: "re_sub space_run (ustr '' '') None ?t = lead ?t @ join (ustr '' '') (ws_words ?t) @ trail ?t"
        by blast
      have w: "ws_words s = ws_words ?t"
        unfolding Cons ws_words.simps [of "c # cs"] ws_words.simps [of ?t]
        using True by (simp add: dropWhile_idem)
      have tr: "trail s = trail ?t"
      proof (cases "ws_words ?t = []")
        case True
        with w show ?thesis by (simp add: trail_def)
      next
        case False
        have ne: "?t \<noteq> []"
        proof
          assume "?t = []"
          then have "ws_words ?t = []" by (simp only: ws_words_Nil)
          with False show False ..
        qed
        then have "cs \<noteq> []" by auto
        then have "last s = last cs" using Cons by simp
        also have "\<dots> = last ?t" using last_dropWhile_nonempty [OF ne] by simp
        finally show ?thesis using w by (simp add: trail_def)
      qed
      have "re_sub space_run (ustr '' '') None s = (ustr '' '') @ re_sub space_run (ustr '' '') None ?t"
        unfolding Cons by (rule collapse_space' [OF True])
      also have "\<dots> = (ustr '' '') @ join (ustr '' '') (ws_words ?t) @ trail ?t"
        unfolding ih by simp
      finally have "re_sub space_run (ustr '' '') None s = (ustr '' '') @ join (ustr '' '') (ws_words ?t) @ trail ?t" .
      moreover have "lead s = (ustr '' '')" using True Cons by (simp add: lead_def)
      ultimately show ?thesis using w tr by simp
    next
      case False
      define w where "w = c # takeWhile (\<lambda>x. \<not> is_space x) cs"
      define r where "r = dropWhile (\<lambda>x. \<not> is_space x) cs"
      have s: "s = w @ r" using Cons by (simp add: w_def r_def)
      have wl: "is_wordlike w"
        using False unfolding w_def is_wordlike_def list_all_iff by (auto dest: set_takeWhileD)
      then have wa: "list_all (\<lambda>x. \<not> is_space x) w" by (simp add: is_wordlike_def)
      have r: "r = [] \<or> is_space (hd r)"
        unfolding r_def using hd_dropWhile [of "\<lambda>x. \<not> is_space x" cs] by blast
      have "length r \<le> length cs" unfolding r_def by (rule length_dropWhile_le)
      then have "length r < length s" using Cons by simp
      with 1 have ih: "re_sub space_run (ustr '' '') None r = lead r @ join (ustr '' '') (ws_words r) @ trail r"
        by blast
      have ws: "ws_words s = w # ws_words r"
        unfolding s by (rule ws_words_word_append [OF wl r])
      have l: "lead s = []" using False Cons by (simp add: lead_def)
      have c: "re_sub space_run (ustr '' '') None s = w @ re_sub space_run (ustr '' '') None r"
        unfolding s by (rule collapse_word [OF wa])
      show ?thesis
      proof (cases "r = []")
        case True
        have "last s = last w" using s True by simp
        moreover have "\<not> is_space (last w)" by (rule wordlike_last [OF wl])
        ultimately have "trail s = []" by (simp add: trail_def)
        then show ?thesis unfolding c ws l True by simp
      next
        case ne: False
        with r have sp: "is_space (hd r)" by blast
        then have lr: "lead r = (ustr '' '')" using ne by (cases r) (simp_all add: lead_def)
        have ls: "last s = last r" unfolding s using ne by simp
        show ?thesis
        proof (cases "ws_words r = []")
          case True
          then have "list_all is_space r" by (simp add: ws_words_empty_iff)
          then have "is_space (last r)" using ne last_in_set [OF ne] by (simp add: list_all_iff)
          then have "trail s = (ustr '' '')" using ws ls by (simp add: trail_def)
          moreover have "trail r = []" using True by (simp add: trail_def)
          ultimately show ?thesis unfolding c ws l ih lr True by simp
        next
          case False
          then have "trail s = trail r" using ws ls by (simp add: trail_def)
          then show ?thesis unfolding c ws l ih lr using False by (simp add: join_Cons)
        qed
      qed
    qed
  qed
qed

lemma strip_shape:
  assumes n: "n = [] \<or> (\<not> is_space (hd n) \<and> \<not> is_space (last n))"
    and l: "l = [] \<or> l = (ustr '' '')" and t: "t = [] \<or> t = (ustr '' '')" and e: "n = [] \<longrightarrow> t = []"
  shows "strip (l @ n @ t) = n"
proof (cases "n = []")
  case True
  with e l show ?thesis by (auto simp: strip_def ustr_space)
next
  case False
  with n have h: "\<not> is_space (hd n)" "\<not> is_space (last n)" by simp_all
  from False obtain c n' where c: "n = c # n'" by (cases n) auto
  with h(1) have "dropWhile is_space (n @ t) = n @ t" by simp
  with l have d: "dropWhile is_space (l @ n @ t) = n @ t" by (auto simp: ustr_space)
  from False obtain d m where m: "rev n = d # m" by (cases "rev n") auto
  then have "last n = d" by (metis False last_rev list.sel(1) rev_rev_ident hd_rev)
  with h(2) m have "dropWhile is_space (rev n) = rev n" by simp
  with t have "dropWhile is_space (rev (n @ t)) = rev n" by (auto simp: ustr_space)
  then show ?thesis unfolding strip_def d by simp
qed

lemma clean_text_words: "clean_text raw = join (ustr '' '') (ws_words raw)"
proof -
  have "re_sub space_run (ustr '' '') None (re_sub single_newline (ustr '' '') None raw)
        = re_sub space_run (ustr '' '') None raw"
    by (rule collapse_same_class [OF sub_single_newline_class])
  then have "clean_text raw = strip (lead raw @ join (ustr '' '') (ws_words raw) @ trail raw)"
    by (simp add: clean_text_def collapse_shape)
  also have "\<dots> = join (ustr '' '') (ws_words raw)"
  proof (rule strip_shape)
    show "join (ustr '' '') (ws_words raw) = [] \<or>
      (\<not> is_space (hd (join (ustr '' '') (ws_words raw))) \<and> \<not> is_space (last (join (ustr '' '') (ws_words raw))))"
      using join_wordlike_ends [OF ws_words_wordlike, of raw] by (cases "ws_words raw = []") auto
    show "lead raw = [] \<or> lead raw = (ustr '' '')" by (auto simp: lead_def split: list.splits)
    show "trail raw = [] \<or> trail raw = (ustr '' '')" by (simp add: trail_def)
    show "join (ustr '' '') (ws_words raw) = [] \<longrightarrow> trail raw = []"
      using join_wordlike_ends [OF ws_words_wordlike, of raw] by (auto simp: trail_def)
  qed
  finally show ?thesis .
qed

section \<open>The extractor: claims\<close>



subsection \<open>The temporary file\<close>

lemma extract_finally_removes:
  "unlink_error w = None \<Longrightarrow> fst (extract_finally w (Some p) files) p = None"
  by (simp add: extract_finally_def)

lemma extract_finally_warns:
  "unlink_error w = Some e \<Longrightarrow> files p \<noteq> None \<Longrightarrow>
   extract_finally w (Some p) files = (files, [Warning (''Couldn't delete temp file: '' @ str e)])"
  by (auto simp: extract_finally_def)

text \<open>Once \<open>tmp_path\<close> is bound, the file is gone after the call unless unlinking raises.\<close>

lemma temp_file_removed_when_named:
  assumes "snd (snd (extract_try w f files)) = Some p" "unlink_error w = None"
  shows "fst (snd (extract_text_from_file w f files)) p = None"
proof -
  obtain r files1 where t: "extract_try w f files = (r, files1, Some p)"
    using assms(1) by (cases "extract_try w f files") auto
  obtain files2 warned where fin: "extract_finally w (Some p) files1 = (files2, warned)"
    by (cases "extract_finally w (Some p) files1")
  have "files2 p = None" using extract_finally_removes [OF assms(2), of p files1] fin by simp
  then show ?thesis
    by (cases r) (simp_all add: extract_text_from_file_def t fin)
qed

text \<open>
  C5 fails on the code. When writing the upload to the temporary file raises, the file
  has been created and \<open>tmp_path\<close> is not yet bound, so the \<open>finally\<close> block unlinks
  nothing: after the call the temporary file is still there.
\<close>

theorem temp_file_left_after_failed_write:
  "write_error full_disk_world = Some (Exn ''No space left on device'') \<and>
   length (getvalue large_upload) = 8192 \<and>
   fst (extract_text_from_file full_disk_world large_upload Map.empty) = [] \<and>
   snd (snd (extract_text_from_file full_disk_world large_upload Map.empty))
     = [Error ''Error reading file: No space left on device''] \<and>
   fst (snd (extract_text_from_file full_disk_world large_upload Map.empty))
     (tmp_name full_disk_world) \<noteq> None"
  by (simp add: extract_text_from_file_def extract_try_def extract_finally_def
      full_disk_world_def calm_world_def large_upload_def)

text \<open>The steps of the \<open>try\<close> block that can raise.\<close>

lemma extract_try_raises_iff:
  "(\<exists>e. fst (extract_try w f files) = Inl e) \<longleftrightarrow>
     create_error w \<noteq> None \<or> write_error w \<noteq> None \<or> close_error w \<noteq> None \<or>
     (\<exists>e. read_raw w f (files(tmp_name w \<mapsto> getvalue f)) (tmp_name w) = Inl e)"
  by (auto simp: extract_try_def Let_def split: option.splits sum.splits)

text \<open>
  C6. When the \<open>try\<close> block of the extraction raises \<open>e\<close>, whatever step raised it, the
  call returns the empty string and shows the error message made from \<open>e\<close>.
\<close>

theorem extraction_failure_gives_empty_text:
  "fst (extract_try w f files) = Inl e \<Longrightarrow>
   fst (extract_text_from_file w f files) = [] \<and>
   Error (''Error reading file: '' @ str e) \<in> set (snd (snd (extract_text_from_file w f files)))"
proof -
  assume a: "fst (extract_try w f files) = Inl e"
  obtain files1 tmp_path where t: "extract_try w f files = (Inl e, files1, tmp_path)"
    using a by (cases "extract_try w f files") auto
  obtain files2 warned where fin: "extract_finally w tmp_path files1 = (files2, warned)"
    by (cases "extract_finally w tmp_path files1")
  show ?thesis by (simp add: extract_text_from_file_def t fin)
qed

theorem extraction_failure_gives_empty_text_witness:
  "collect [Inr (ustr ''page one''), Inl (Exn ''corrupt page'')]
     = (Inl (Exn ''corrupt page'') :: exn + ustring list) \<and>
   fst (extract_try torn_pdf_world pdf_upload Map.empty) = Inl (Exn ''corrupt page'') \<and>
   fst (extract_text_from_file torn_pdf_world pdf_upload Map.empty) = [] \<and>
   Error ''Error reading file: corrupt page''
     \<in> set (snd (snd (extract_text_from_file torn_pdf_world pdf_upload Map.empty)))"
proof -
  have r: "fst (extract_try torn_pdf_world pdf_upload Map.empty) = Inl (Exn ''corrupt page'')"
    by (simp add: extract_try_def read_raw_def open_read_def torn_pdf_world_def calm_world_def
        pdf_upload_def Let_def)
  from extraction_failure_gives_empty_text [OF r] r show ?thesis by simp
qed

section \<open>The printable summary: claims\<close>

lemma ascii_replace_ascii: "list_all is_ascii (ascii_replace s)"
  by (induction s) (simp_all add: ascii_replace_def)

lemma ascii_replace_literal:
  "list_all is_ascii s \<Longrightarrow> ascii_replace (s @ t) = s @ ascii_replace t"
  by (induction s) (simp_all add: ascii_replace_def)

lemma ascii_replace_nth:
  "i < length s \<Longrightarrow> ascii_replace s ! i = (if is_ascii (s ! i) then s ! i else L1 (CHR ''?''))"
  by (simp add: ascii_replace_def)

lemma symptoms_section:
  "ascii_replace (ustr ''Symptoms:'' @ [newline] @ symptoms)
     = ustr ''Symptoms:'' @ [newline] @ ascii_replace symptoms"
proof -
  have "list_all is_ascii (ustr ''Symptoms:'' @ [newline])" by (simp add: ustr_def newline_def)
  from ascii_replace_literal [OF this, of symptoms] show ?thesis by simp
qed

text \<open>
  C8. For all symptom and guidance texts the summary shows the title, the symptoms
  section, the guidance section and the disclaimer, every character of which is ASCII;
  in both sections each character outside ASCII has become a question mark and every
  other character is kept in place; and the call returns, with the file name or, when
  the PDF writer raises, with \<open>None\<close> and the error shown.
\<close>

theorem summary_sections_sanitised:
  "pdf_texts (medical_pdf_ops symptoms guide) =
     [ustr ''Your Medical Visit Summary'',
      ustr ''Symptoms:'' @ [newline] @ ascii_replace symptoms,
      ustr ''Guidance:'' @ [newline] @ ascii_replace guide,
      ustr ''Disclaimer: This document is not medical advice. Always consult a healthcare professional.'']
   \<and> list_all (list_all is_ascii) (pdf_texts (medical_pdf_ops symptoms guide))
   \<and> length (ascii_replace s) = length s
   \<and> (i < length s \<longrightarrow> ascii_replace s ! i = (if is_ascii (s ! i) then s ! i else L1 (CHR ''?'')))
   \<and> (case fpdf_output w (medical_pdf_ops symptoms guide) of
         Inr b \<Rightarrow> create_medical_pdf w symptoms guide filename files
                    = (Some filename, files(filename \<mapsto> b), [])
       | Inl e \<Rightarrow> create_medical_pdf w symptoms guide filename files
                    = (None, files, [Error (''PDF generation failed: '' @ str e)]))"
proof -
  have texts: "pdf_texts (medical_pdf_ops symptoms guide) =
     [ustr ''Your Medical Visit Summary'',
      ustr ''Symptoms:'' @ [newline] @ ascii_replace symptoms,
      ustr ''Guidance:'' @ [newline] @ ascii_replace guide,
      ustr ''Disclaimer: This document is not medical advice. Always consult a healthcare professional.'']"
    unfolding medical_pdf_ops_def Let_def symptoms_section by simp
  have lit: "list_all is_ascii (ustr ''Your Medical Visit Summary'')"
    "list_all is_ascii (ustr ''Symptoms:'' @ [newline])"
    "list_all is_ascii (ustr ''Guidance:'' @ [newline])"
    "list_all is_ascii
      (ustr ''Disclaimer: This document is not medical advice. Always consult a healthcare professional.'')"
    by (simp_all add: ustr_def newline_def)
  have ascii: "list_all (list_all is_ascii) (pdf_texts (medical_pdf_ops symptoms guide))"
    unfolding texts using lit ascii_replace_ascii [of symptoms] ascii_replace_ascii [of guide]
    by simp
  have len: "length (ascii_replace s) = length s" by (simp add: ascii_replace_def)
  have made: "case fpdf_output w (medical_pdf_ops symptoms guide) of
         Inr b \<Rightarrow> create_medical_pdf w symptoms guide filename files
                    = (Some filename, files(filename \<mapsto> b), [])
       | Inl e \<Rightarrow> create_medical_pdf w symptoms guide filename files
                    = (None, files, [Error (''PDF generation failed: '' @ str e)])"
    by (cases "fpdf_output w (medical_pdf_ops symptoms guide)")
       (simp_all add: create_medical_pdf_def)
  from texts ascii len made ascii_replace_nth [of i s] show ?thesis by blast
qed

theorem summary_sections_sanitised_witness:
  "\<not> is_ascii (L1 (CHR 0xE9)) \<and>
   pdf_texts (medical_pdf_ops (ustr ''caf'' @ [L1 (CHR 0xE9)])
       (ustr ''Drink th'' @ [L1 (CHR 0xE9)] @ ustr ''.'')) =
     [ustr ''Your Medical Visit Summary'',
      ustr ''Symptoms:'' @ [newline] @ ustr ''caf?'',
      ustr ''Guidance:'' @ [newline] @ ustr ''Drink th?.'',
      ustr ''Disclaimer: This document is not medical advice. Always consult a healthcare professional.'']
   \<and> (3 < length (ustr ''caf'' @ [L1 (CHR 0xE9)])
        \<and> ascii_replace (ustr ''caf'' @ [L1 (CHR 0xE9)]) ! 3 = L1 (CHR ''?''))
   \<and> create_medical_pdf calm_world (ustr ''caf'' @ [L1 (CHR 0xE9)])
        (ustr ''Drink th'' @ [L1 (CHR 0xE9)] @ ustr ''.'') ''medical_summary.pdf'' Map.empty
       = (Some ''medical_summary.pdf'', [''medical_summary.pdf'' \<mapsto> ''%PDF-1.3''], [])"
proof -
  have e: "\<not> is_ascii (L1 (CHR 0xE9))" by simp
  have r: "ascii_replace (ustr ''caf'' @ [L1 (CHR 0xE9)]) = ustr ''caf?''"
    "ascii_replace (ustr ''Drink th'' @ [L1 (CHR 0xE9)] @ ustr ''.'') = ustr ''Drink th?.''"
    by (simp_all add: ascii_replace_def ustr_def)
  have out: "fpdf_output calm_world
     (medical_pdf_ops (ustr ''caf'' @ [L1 (CHR 0xE9)])
        (ustr ''Drink th'' @ [L1 (CHR 0xE9)] @ ustr ''.'')) = Inr ''%PDF-1.3''"
    by (simp add: calm_world_def)
  have l: "3 < length (ustr ''caf'' @ [L1 (CHR 0xE9)])"
    "ustr ''caf?'' ! 3 = L1 (CHR ''?'')" by (simp_all add: ustr_def)
  from summary_sections_sanitised [of "ustr ''caf'' @ [L1 (CHR 0xE9)]"
      "ustr ''Drink th'' @ [L1 (CHR 0xE9)] @ ustr ''.''"
      "ustr ''caf'' @ [L1 (CHR 0xE9)]" 3 calm_world "''medical_summary.pdf''" Map.empty]
  show ?thesis unfolding r out using e l by simp
qed

section \<open>The request: claims\<close>

lemma scan_flags_result:
  "scan_flags flags t = (False, []) \<or>
   (\<exists>m. scan_flags flags t = (True, [Error m, Error emergency_notice]))"
proof (induction flags)
  case Nil
  show ?case by simp
next
  case (Cons r flags)
  obtain p m where "r = (p, m)" by (cases r)
  with Cons show ?case by auto
qed

lemma check_red_flags_result:
  "check_red_flags t = (False, []) \<or>
   (\<exists>m. check_red_flags t = (True, [Error m, Error emergency_notice]))"
  unfolding check_red_flags_def check_red_flags_in_def
  using scan_flags_result [of RED_FLAGS "lower t"] by auto

lemma read_input_typed_clear:
  assumes "uploaded inp = None" "symptoms_in inp \<noteq> []" "\<not> fst (check_red_flags (symptoms_in inp))"
  shows "read_input w inp files = (Some (symptoms_in inp), files, [])"
proof -
  have "check_red_flags (symptoms_in inp) = (False, [])"
    using check_red_flags_result [of "symptoms_in inp"] assms(3) by auto
  then show ?thesis using assms(1,2) by (simp add: read_input_def)
qed

lemma generate_guide_starts:
  "\<exists>rest. snd (generate_guide w specialty symptoms level files)
     = Generate (build_prompt specialty symptoms level) # rest"
  unfolding generate_guide_def Let_def
  by (auto split: sum.splits prod.splits option.splits)

lemma main_generates:
  assumes "grade_levels (reading_level inp) = Some level"
    "read_input w inp files = (Some symptoms, files1, shown)" "symptoms \<noteq> []" "button inp"
  shows "Generate (build_prompt (doctor_specialty inp) symptoms level)
     \<in> set (snd (snd (main w inp files)))"
proof -
  obtain files2 generated where
    g: "generate_guide w (doctor_specialty inp) symptoms level files1 = (files2, generated)"
    by (cases "generate_guide w (doctor_specialty inp) symptoms level files1")
  from generate_guide_starts [of w "doctor_specialty inp" symptoms level files1] g
  obtain rest where "generated = Generate (build_prompt (doctor_specialty inp) symptoms level) # rest"
    by auto
  then show ?thesis using assms g by (simp add: main_def)
qed

lemma grade_levels_table:
  "grade_levels 1 = Some (ustr ''5th grade'')" "grade_levels 2 = Some (ustr ''7th grade'')"
  "grade_levels 3 = Some (ustr ''9th grade'')" "grade_levels 4 = Some (ustr ''11th grade'')"
  "grade_levels 5 = Some (ustr ''College level'')" "dom grade_levels = {1, 2, 3, 4, 5}"
  by (auto simp: grade_levels_def split: if_splits)

lemma prompt_holds_inputs:
  "sublist symptoms (build_prompt specialty symptoms level)"
  "sublist specialty (build_prompt specialty symptoms level)"
  "sublist level (build_prompt specialty symptoms level)"
proof -
  have "build_prompt specialty symptoms level =
     ([newline] @ indent @ (ustr ''You are a health assistant for patients seeing a '') @ specialty @ (ustr ''.'')
        @ [newline] @ indent @ (ustr ''Given these symptoms: '')) @ symptoms @
     ([newline] @ indent @ [newline] @
     indent @ (ustr ''Create a guide at '') @ level @ (ustr '' reading level:'') @ [newline] @
     indent @ (ustr ''1. Possible causes (plain language, no diagnosis)'') @ [newline] @
     indent @ (ustr ''2. 5 priority questions for the doctor'') @ [newline] @
     indent @ (ustr ''3. Appointment preparation tips'') @ [newline] @
     indent @ [newline] @
     indent @ (ustr ''Rules:'') @ [newline] @
     indent @ (ustr ''- Use bullet points'') @ [newline] @
     indent @ (ustr ''- For level 1-2: Max 1-2 syllable words'') @ [newline] @
     indent @ (ustr ''- For level 3-4: May include medical terms with explanations'') @ [newline] @
     indent @ (ustr ''- Never suggest treatments'') @ [newline] @
     indent @ (ustr ''- Use only standard ASCII characters'') @ [newline] @
     indent)"
    unfolding build_prompt_def by (simp only: append_assoc)
  then show "sublist symptoms (build_prompt specialty symptoms level)"
    by (simp only: sublist_appendI)
  have "build_prompt specialty symptoms level =
     ([newline] @ indent @ (ustr ''You are a health assistant for patients seeing a '')) @ specialty @
     ((ustr ''.'') @ [newline] @ indent @ (ustr ''Given these symptoms: '') @ symptoms @
     [newline] @ indent @ [newline] @
     indent @ (ustr ''Create a guide at '') @ level @ (ustr '' reading level:'') @ [newline] @
     indent @ (ustr ''1. Possible causes (plain language, no diagnosis)'') @ [newline] @
     indent @ (ustr ''2. 5 priority questions for the doctor'') @ [newline] @
     indent @ (ustr ''3. Appointment preparation tips'') @ [newline] @
     indent @ [newline] @
     indent @ (ustr ''Rules:'') @ [newline] @
     indent @ (ustr ''- Use bullet points'') @ [newline] @
     indent @ (ustr ''- For level 1-2: Max 1-2 syllable words'') @ [newline] @
     indent @ (ustr ''- For level 3-4: May include medical terms with explanations'') @ [newline] @
     indent @ (ustr ''- Never suggest treatments'') @ [newline] @
     indent @ (ustr ''- Use only standard ASCII characters'') @ [newline] @
     indent)"
    unfolding build_prompt_def by (simp only: append_assoc)
  then show "sublist specialty (build_prompt specialty symptoms level)"
    by (simp only: sublist_appendI)
  have "build_prompt specialty symptoms level =
     ([newline] @ indent @ (ustr ''You are a health assistant for patients seeing a '') @ specialty @
     (ustr ''.'') @ [newline] @ indent @ (ustr ''Given these symptoms: '') @ symptoms @
     [newline] @ indent @ [newline] @
     indent @ (ustr ''Create a guide at '')) @ level @ ((ustr '' reading level:'') @ [newline] @
     indent @ (ustr ''1. Possible causes (plain language, no diagnosis)'') @ [newline] @
     indent @ (ustr ''2. 5 priority questions for the doctor'') @ [newline] @
     indent @ (ustr ''3. Appointment preparation tips'') @ [newline] @
     indent @ [newline] @
     indent @ (ustr ''Rules:'') @ [newline] @
     indent @ (ustr ''- Use bullet points'') @ [newline] @
     indent @ (ustr ''- For level 1-2: Max 1-2 syllable words'') @ [newline] @
     indent @ (ustr ''- For level 3-4: May include medical terms with explanations'') @ [newline] @
     indent @ (ustr ''- Never suggest treatments'') @ [newline] @
     indent @ (ustr ''- Use only standard ASCII characters'') @ [newline] @
     indent)"
    unfolding build_prompt_def by (simp only: append_assoc)
  then show "sublist level (build_prompt specialty symptoms level)"
    by (simp only: sublist_appendI)
qed

lemma prompt_holds_sections:
  "sublist (ustr ''1. Possible causes (plain language, no diagnosis)'') (build_prompt specialty symptoms level)"
  "sublist (ustr ''2. 5 priority questions for the doctor'') (build_prompt specialty symptoms level)"
  "sublist (ustr ''3. Appointment preparation tips'') (build_prompt specialty symptoms level)"
proof -
  define head where "head = [newline] @
     indent @ (ustr ''You are a health assistant for patients seeing a '') @ specialty @ (ustr ''.'') @ [newline] @
     indent @ (ustr ''Given these symptoms: '') @ symptoms @ [newline] @
     indent @ [newline] @
     indent @ (ustr ''Create a guide at '') @ level @ (ustr '' reading level:'') @ [newline]"
  define rules where "rules = [newline] @
     indent @ [newline] @
     indent @ (ustr ''Rules:'') @ [newline] @
     indent @ (ustr ''- Use bullet points'') @ [newline] @
     indent @ (ustr ''- For level 1-2: Max 1-2 syllable words'') @ [newline] @
     indent @ (ustr ''- For level 3-4: May include medical terms with explanations'') @ [newline] @
     indent @ (ustr ''- Never suggest treatments'') @ [newline] @
     indent @ (ustr ''- Use only standard ASCII characters'') @ [newline] @
     indent"
  have "build_prompt specialty symptoms level =
     (head @ indent) @ (ustr ''1. Possible causes (plain language, no diagnosis)'') @
     ([newline] @ indent @ (ustr ''2. 5 priority questions for the doctor'') @ [newline] @
      indent @ (ustr ''3. Appointment preparation tips'') @ rules)"
    unfolding build_prompt_def head_def rules_def by (simp only: append_assoc)
  then show "sublist (ustr ''1. Possible causes (plain language, no diagnosis)'')
      (build_prompt specialty symptoms level)"
    by (simp only: sublist_appendI)
  have "build_prompt specialty symptoms level =
     (head @ indent @ (ustr ''1. Possible causes (plain language, no diagnosis)'') @ [newline] @ indent)
      @ (ustr ''2. 5 priority questions for the doctor'') @
     ([newline] @ indent @ (ustr ''3. Appointment preparation tips'') @ rules)"
    unfolding build_prompt_def head_def rules_def by (simp only: append_assoc)
  then show "sublist (ustr ''2. 5 priority questions for the doctor'')
      (build_prompt specialty symptoms level)"
    by (simp only: sublist_appendI)
  have "build_prompt specialty symptoms level =
     (head @ indent @ (ustr ''1. Possible causes (plain language, no diagnosis)'') @ [newline] @ indent
      @ (ustr ''2. 5 priority questions for the doctor'') @ [newline] @ indent)
      @ (ustr ''3. Appointment preparation tips'') @ rules"
    unfolding build_prompt_def head_def rules_def by (simp only: append_assoc)
  then show "sublist (ustr ''3. Appointment preparation tips'')
      (build_prompt specialty symptoms level)"
    by (simp only: sublist_appendI)
qed

text \<open>
  C7. With typed symptom text that is not flagged, the specialty General Practitioner,
  reading level 3 and the button pressed, the generator is called with the prompt built
  from these, and that prompt contains the symptom text, the specialty, the label
  \<open>9th grade\<close> and the three section headers; the labels of the five reading levels
  are the fixed ones.
\<close>

theorem prompt_for_general_practitioner_level_3:
  "(symptoms \<noteq> [] \<and> \<not> fst (check_red_flags symptoms) \<and>
    inp = \<lparr>reading_level = 3, doctor_specialty = (ustr ''General Practitioner''), uploaded = None,
           symptoms_in = symptoms, button = True\<rparr> \<and>
    prompt = build_prompt (ustr ''General Practitioner'') symptoms (ustr ''9th grade'')
    \<longrightarrow> Generate prompt \<in> set (snd (snd (main w inp files))) \<and>
        sublist symptoms prompt \<and> sublist (ustr ''General Practitioner'') prompt \<and>
        sublist (ustr ''9th grade'') prompt \<and>
        sublist (ustr ''1. Possible causes (plain language, no diagnosis)'') prompt \<and>
        sublist (ustr ''2. 5 priority questions for the doctor'') prompt \<and>
        sublist (ustr ''3. Appointment preparation tips'') prompt)
   \<and> grade_levels 1 = Some (ustr ''5th grade'') \<and> grade_levels 2 = Some (ustr ''7th grade'')
   \<and> grade_levels 3 = Some (ustr ''9th grade'') \<and> grade_levels 4 = Some (ustr ''11th grade'')
   \<and> grade_levels 5 = Some (ustr ''College level'') \<and> dom grade_levels = {1, 2, 3, 4, 5}"
proof -
  have "Generate prompt \<in> set (snd (snd (main w inp files)))"
    if h: "symptoms \<noteq> []" "\<not> fst (check_red_flags symptoms)"
      "inp = \<lparr>reading_level = 3, doctor_specialty = (ustr ''General Practitioner''), uploaded = None,
           symptoms_in = symptoms, button = True\<rparr>"
      "prompt = build_prompt (ustr ''General Practitioner'') symptoms (ustr ''9th grade'')"
  proof -
    have r: "read_input w inp files = (Some (symptoms_in inp), files, [])"
      by (rule read_input_typed_clear) (use h in simp_all)
    have g: "grade_levels (reading_level inp) = Some (ustr ''9th grade'')"
      using h(3) grade_levels_table(3) by simp
    have "Generate (build_prompt (doctor_specialty inp) (symptoms_in inp) (ustr ''9th grade''))
       \<in> set (snd (snd (main w inp files)))"
      by (rule main_generates [OF g r]) (use h in simp_all)
    then show ?thesis using h(3,4) by simp
  qed
  moreover have "sublist symptoms prompt \<and> sublist (ustr ''General Practitioner'') prompt \<and>
        sublist (ustr ''9th grade'') prompt \<and>
        sublist (ustr ''1. Possible causes (plain language, no diagnosis)'') prompt \<and>
        sublist (ustr ''2. 5 priority questions for the doctor'') prompt \<and>
        sublist (ustr ''3. Appointment preparation tips'') prompt"
    if "prompt = build_prompt (ustr ''General Practitioner'') symptoms (ustr ''9th grade'')"
    unfolding that using prompt_holds_inputs prompt_holds_sections by blast
  ultimately show ?thesis using grade_levels_table by blast
qed

theorem prompt_for_general_practitioner_level_3_witness:
  "(ustr ''I have a mild headache for two days'') \<noteq> [] \<and>
   \<not> fst (check_red_flags (ustr ''I have a mild headache for two days'')) \<and>
   Generate (build_prompt (ustr ''General Practitioner'') (ustr ''I have a mild headache for two days'')
              (ustr ''9th grade''))
     \<in> set (snd (snd (main calm_world
          \<lparr>reading_level = 3, doctor_specialty = (ustr ''General Practitioner''), uploaded = None,
           symptoms_in = (ustr ''I have a mild headache for two days''), button = True\<rparr> Map.empty))) \<and>
   sublist (ustr ''I have a mild headache for two days'')
     (build_prompt (ustr ''General Practitioner'') (ustr ''I have a mild headache for two days'') (ustr ''9th grade'')) \<and>
   sublist (ustr ''9th grade'')
     (build_prompt (ustr ''General Practitioner'') (ustr ''I have a mild headache for two days'') (ustr ''9th grade''))"
proof -
  have clear: "\<not> fst (check_red_flags (ustr ''I have a mild headache for two days''))"
    by code_simp
  have typed: "(ustr ''I have a mild headache for two days'') \<noteq> []"
    by (simp add: ustr_def)
  from prompt_for_general_practitioner_level_3
    [of "(ustr ''I have a mild headache for two days'')"
        "\<lparr>reading_level = 3, doctor_specialty = (ustr ''General Practitioner''), uploaded = None,
           symptoms_in = (ustr ''I have a mild headache for two days''), button = True\<rparr>"
        "build_prompt (ustr ''General Practitioner'') (ustr ''I have a mild headache for two days'') (ustr ''9th grade'')"
        calm_world Map.empty]
    clear typed
  show ?thesis by blast
qed

subsection \<open>Hazards and the generator\<close>

lemma no_generate_in_alerts:
  "Generate p \<notin> set (snd (check_red_flags t))"
  using check_red_flags_result [of t] by auto

lemma no_generate_in_extraction:
  "Generate p \<notin> set (snd (snd (extract_text_from_file w f files)))"
proof -
  obtain r files1 tp where t: "extract_try w f files = (r, files1, tp)"
    by (cases "extract_try w f files")
  obtain files2 warned where fin: "extract_finally w tp files1 = (files2, warned)"
    by (cases "extract_finally w tp files1")
  have "Generate p \<notin> set (snd (extract_finally w tp files1))"
    by (auto simp: extract_finally_def split: option.splits)
  then have "Generate p \<notin> set warned" using fin by simp
  then show ?thesis
    by (cases r) (simp_all add: extract_text_from_file_def t fin)
qed

text \<open>Where the text that becomes \<open>symptoms\<close> is scanned, a hazard ends the run before the
  generator is called: typed text without an upload, and text extracted from an upload.\<close>

lemma flagged_typed_text_halts:
  assumes "uploaded inp = None" "fst (check_red_flags (symptoms_in inp))"
    "grade_levels (reading_level inp) \<noteq> None"
  shows "fst (main w inp files) = Stopped \<and> Generate p \<notin> set (snd (snd (main w inp files)))"
proof -
  obtain alerts where c: "check_red_flags (symptoms_in inp) = (True, alerts)"
    using assms(2) by (cases "check_red_flags (symptoms_in inp)") auto
  have ne: "symptoms_in inp \<noteq> []"
    using assms(2) by (auto simp: check_red_flags_def check_red_flags_in_def)
  have r: "read_input w inp files = (None, files, alerts)"
    using assms(1) c ne by (simp add: read_input_def)
  have "Generate p \<notin> set alerts" using no_generate_in_alerts [of p "symptoms_in inp"] c by simp
  then show ?thesis using assms(3) r by (auto simp: main_def)
qed

lemma flagged_extracted_text_halts:
  assumes "uploaded inp = Some f" "fst (extract_text_from_file w f files) \<noteq> []"
    "fst (check_red_flags (fst (extract_text_from_file w f files)))"
    "grade_levels (reading_level inp) \<noteq> None"
  shows "fst (main w inp files) = Stopped \<and> Generate p \<notin> set (snd (snd (main w inp files)))"
proof -
  obtain t files' shown where e: "extract_text_from_file w f files = (t, files', shown)"
    by (cases "extract_text_from_file w f files")
  with assms have t: "t \<noteq> []" "fst (check_red_flags t)" by simp_all
  obtain alerts where c: "check_red_flags t = (True, alerts)"
    using t(2) by (cases "check_red_flags t") auto
  have r: "read_input w inp files = (None, files',
      shown @ [Success (page_icon @ '' Extracted Text Preview:''), TextArea t] @ alerts)"
    using assms(1) e t(1) c by (simp add: read_input_def)
  have "Generate p \<notin> set alerts" using no_generate_in_alerts [of p t] c by simp
  moreover have "Generate p \<notin> set shown" using no_generate_in_extraction [of p w f files] e by simp
  ultimately show ?thesis using assms(4) r by (auto simp: main_def)
qed

text \<open>
  C1 fails on the code. With an upload from which no text is extracted (here an empty
  text file) the typed text stays in \<open>symptoms\<close> and is never scanned, because the branch
  that scans typed text is the \<open>elif\<close> of the upload test: the typed text holds a hazard
  phrase, the scanner flags it when asked, and still the run finishes with the generator
  called on it.
\<close>

theorem typed_hazard_reaches_generator:
  "uploaded bypass_inputs = Some empty_upload \<and>
   symptoms_in bypass_inputs = (ustr ''I have chest pain'') \<and>
   fst (check_red_flags (ustr ''I have chest pain'')) \<and>
   fst (extract_text_from_file calm_world empty_upload Map.empty) = [] \<and>
   fst (main calm_world bypass_inputs Map.empty) = Finished \<and>
   Generate (build_prompt (ustr ''General Practitioner'') (ustr ''I have chest pain'') (ustr ''9th grade''))
     \<in> set (snd (snd (main calm_world bypass_inputs Map.empty))) \<and>
   Stream (stream_header (ustr ''9th grade'') @ [Txt (ustr ''Rest. Ask your doctor.'')])
     \<in> set (snd (snd (main calm_world bypass_inputs Map.empty)))"
  by code_simp

end
